theory Spec2Isabelle
  imports Main
begin

section \<open>Run-time types and values (the part of Go's reflect the container uses)\<close>

text \<open>
  A type descriptor (\<open>reflect.Type\<close>). A method is named by its full signature, so the
  method of the \<open>error\<close> interface is the string \<open>Error() string\<close>.
  \<^item> \<open>Named n vs ps\<close>: a defined type that is neither a pointer, a function nor an
    interface (\<open>int\<close>, a struct, ...), with the methods declared on a value receiver
    and those declared on a pointer receiver;
  \<^item> \<open>Iface n ms\<close>: an interface type with its method set;
  \<^item> \<open>Ptr t\<close>: the pointer type \<open>*t\<close>;
  \<^item> \<open>Slice t\<close>: the slice type \<open>[]t\<close>;
  \<^item> \<open>Func ins outs variadic\<close>: a function type with its inputs and outputs, and
    whether it is variadic (\<open>IsVariadic\<close>): the last input of a variadic function
    \<open>func(xs ...t)\<close> is the slice type \<open>[]t\<close>.
\<close>

datatype rtype =
    Named string "string list" "string list"
  | Iface string "string list"
  | Ptr rtype
  | Slice rtype
  | Func "rtype list" "rtype list" bool

datatype kind = Invalid_kind | Ptr_kind | Func_kind | Interface_kind | Other_kind

fun Kind_of :: "rtype \<Rightarrow> kind" where
  "Kind_of (Named n vs ps) = Other_kind"
| "Kind_of (Iface n ms) = Interface_kind"
| "Kind_of (Ptr t) = Ptr_kind"
| "Kind_of (Slice t) = Other_kind"
| "Kind_of (Func ins outs variadic) = Func_kind"

text \<open>The method set of a type, as the Go specification defines it.\<close>

fun method_set :: "rtype \<Rightarrow> string list" where
  "method_set (Named n vs ps) = vs"
| "method_set (Iface n ms) = ms"
| "method_set (Ptr (Named n vs ps)) = vs @ ps"
| "method_set (Ptr t) = []"
| "method_set (Slice t) = []"
| "method_set (Func ins outs variadic) = []"

text \<open>\<open>errorInterface = reflect.TypeOf((*error)(nil)).Elem()\<close>\<close>

definition errorInterface :: rtype where
  "errorInterface = Iface ''error'' [''Error() string'']"

text \<open>\<open>t.Implements(u)\<close>; reflect panics (here \<open>None\<close>) when \<open>u\<close> is not an interface.\<close>

fun Implements :: "rtype \<Rightarrow> rtype \<Rightarrow> bool option" where
  "Implements t (Iface n ms) = Some (set ms \<subseteq> set (method_set t))"
| "Implements t u = None"

text \<open>
  The data of a value: \<open>Nil\<close> (a nil pointer, function or interface), the address of a
  variable, the code of a function (an index into the world's table of functions), a
  plain value, the dynamic type and data held by an interface, or the elements of a
  slice.
\<close>

datatype data = Nil | Addr nat | Code nat | Lit string | Boxed rtype data | Items "data list"

text \<open>
  A \<open>reflect.Value\<close>: the zero Value \<open>Invalid\<close>, or a type with data. An
  \<open>interface{}\<close> argument is modelled by what \<open>reflect.ValueOf\<close> gives for it:
  \<open>Invalid\<close> for the nil interface, else the dynamic type and data.
\<close>

datatype rvalue = Invalid | Value rtype data

fun IsValid :: "rvalue \<Rightarrow> bool" where
  "IsValid Invalid = False"
| "IsValid (Value t d) = True"

fun Kind :: "rvalue \<Rightarrow> kind" where
  "Kind Invalid = Invalid_kind"
| "Kind (Value t d) = Kind_of t"

text \<open>The three outcomes of running code: the fuel of a recursion ran out (the code
  has not returned yet), a panic, or a return.\<close>

datatype 'a exec = OutOfFuel | Panic | Return 'a

section \<open>Registrations (container.go)\<close>

record providerOptions =
  provider :: rvalue
  name :: string
  implements :: "rvalue list"

record modifierOptions =
  modifier :: rvalue

section \<open>Keys, errors, providers and definitions\<close>

text \<open>
  Modelled from the spec: the declaration of \<open>key\<close> is not among the sources; they build
  it as \<open>key{typ: t}\<close>, and the spec (section 3) gives the two fields.
\<close>

record key =
  typ' :: rtype
  name :: string

text \<open>\<open>key{typ: t}\<close>: the name is the empty string.\<close>

definition key_of :: "rtype \<Rightarrow> key" where
  "key_of t = \<lparr>typ' = t, name = []\<rparr>"

datatype fmtarg = ArgKey key | ArgType rtype | ArgDef nat

text \<open>
  Errors as values, one constructor per way the sources build one
  (\<open>github.com/pkg/errors\<close>): \<open>Dynamic t d\<close> is an error value made by user code.
\<close>

datatype error =
    errors_New string
  | errors_Errorf string "fmtarg list"
  | Wrapped error string "fmtarg list"
  | Stacked error
  | Dynamic rtype data

definition ErrIncorrectProviderType :: error where
  "ErrIncorrectProviderType =
     errors_New ''value must be a function with value and optional error as result''"

definition errIncorrectModifierSignature :: error where
  "errIncorrectModifierSignature =
     errors_New ''modifier must be a function with optional error as result''"

text \<open>\<open>errors.Wrap\<close>, \<open>errors.Wrapf\<close> and \<open>errors.WithStack\<close> return nil for a nil error.\<close>

fun errors_Wrapf :: "error option \<Rightarrow> string \<Rightarrow> fmtarg list \<Rightarrow> error option" where
  "errors_Wrapf None msg as = None"
| "errors_Wrapf (Some e) msg as = Some (Wrapped e msg as)"

definition errors_Wrap :: "error option \<Rightarrow> string \<Rightarrow> error option" where
  "errors_Wrap e msg = errors_Wrapf e msg []"

fun errors_WithStack :: "error option \<Rightarrow> error option" where
  "errors_WithStack None = None"
| "errors_WithStack (Some e) = Some (Stacked e)"

datatype providerType = providerTypeFunc | providerTypeStruct

record providerWrapper =
  providerType :: providerType
  providerValue :: rvalue
  resultType :: rtype

text \<open>
  Modelled from the spec: the declaration of the \<open>provider\<close> field of a definition is not
  among the sources; \<open>compile\<close> reads \<open>def.provider.arguments\<close>, and the spec (section 3)
  lists the declared argument identifiers among the wrapper's attributes.
\<close>

record provider = providerWrapper +
  arguments :: "key list"

text \<open>
  Modelled from the spec: the declaration of \<open>definition\<close> is not among the sources. The
  fields are those the sources read and write (\<open>key\<close>, \<open>implements\<close>, \<open>provider\<close>,
  \<open>in\<close>, \<open>out\<close>, \<open>visited\<close>) and the memoized instance of the spec (section 3), absent
  until the first successful construction. A \<open>*definition\<close> is an address: an index into
  the heap of definitions.
\<close>

type_synonym addr = nat

datatype visitMark = visitMarkUnmarked | visitMarkTemporary | visitMarkPermanent

record definition' =
  key :: key
  implements :: "key list"
  provider :: provider
  in' :: "addr list"
  out :: "addr list"
  visited :: visitMark
  instance' :: "rvalue option"


section \<open>Definition storage (definition\_storage.go)\<close>

record definitions =
  keys :: "key list"
  definitions :: "key \<rightharpoonup> addr"
  implementations :: "key \<rightharpoonup> addr list"

text \<open>Indexing a Go map of slices at a missing key gives the nil slice.\<close>

definition impls :: "definitions \<Rightarrow> key \<Rightarrow> addr list" where
  "impls s k = (case implementations s k of None \<Rightarrow> [] | Some ds \<Rightarrow> ds)"

text \<open>The loop of \<open>add\<close> over \<open>def.implements\<close>.\<close>

fun add_implements :: "(key \<rightharpoonup> addr list) \<Rightarrow> addr \<Rightarrow> key list \<Rightarrow> (key \<rightharpoonup> addr list)" where
  "add_implements m d [] = m"
| "add_implements m d (k # ks) =
     add_implements (m(k \<mapsto> (case m k of None \<Rightarrow> [] | Some ds \<Rightarrow> ds) @ [d])) d ks"

text \<open>
  \<open>add\<close> reads the definition behind the pointer in the heap \<open>h\<close> (a nil or dangling
  pointer panics), and returns the storage with the error.
\<close>

definition add :: "definition' list \<Rightarrow> definitions \<Rightarrow> addr \<Rightarrow> (definitions \<times> error option) exec" where
  "add h s d =
     (if \<not> d < length h then Panic
      else if definitions s (key (h ! d)) \<noteq> None
        then Return (s, Some (errors_Errorf ''%s already provided'' [ArgKey (key (h ! d))]))
      else Return
        (s\<lparr>keys := keys s @ [key (h ! d)],
           definitions := (definitions s)(key (h ! d) \<mapsto> d),
           implementations := add_implements (implementations s) d (implements (h ! d))\<rparr>,
         None))"

definition get :: "definitions \<Rightarrow> key \<Rightarrow> addr option \<times> error option" where
  "get s k =
     (case definitions s k of
        Some d \<Rightarrow> (Some d, None)
      | None \<Rightarrow>
          (case impls s k of
             d # ds \<Rightarrow> (Some d, None)
           | [] \<Rightarrow> (None, Some (errors_Errorf ''type %s not provided'' [ArgKey k]))))"

text \<open>\<open>all\<close>: a key of the list that the map misses gives a nil pointer.\<close>

fun all_defs :: "(key \<rightharpoonup> addr) \<Rightarrow> key list \<Rightarrow> addr option list" where
  "all_defs m [] = []"
| "all_defs m (k # ks) = m k # all_defs m ks"

definition all :: "definitions \<Rightarrow> addr option list" where
  "all s = all_defs (definitions s) (keys s)"

text \<open>The storage \<open>New\<close> starts from: an empty list and two empty maps.\<close>

definition empty_storage :: definitions where
  "empty_storage = \<lparr>keys = [], definitions = Map.empty, implementations = Map.empty\<rparr>"

text \<open>
  Registering the definitions \<open>ds\<close> in order, as the first loop of \<open>compile\<close> does once
  each definition is created: the first \<open>add\<close> that fails ends the run.
\<close>

fun add_list :: "definition' list \<Rightarrow> definitions \<Rightarrow> addr list \<Rightarrow> (definitions \<times> error option) exec" where
  "add_list h s [] = Return (s, None)"
| "add_list h s (d # ds) =
     (case add h s d of Return (s', None) \<Rightarrow> add_list h s' ds | r \<Rightarrow> r)"

text \<open>What one \<open>add\<close> of \<open>d\<close> appends to the capability list of \<open>k\<close>: \<open>d\<close>, once for
  each time it declares \<open>k\<close>.\<close>

definition claims :: "definition' list \<Rightarrow> key \<Rightarrow> addr \<Rightarrow> addr list" where
  "claims h k d = replicate (count_list (implements (h ! d)) k) d"

section \<open>Provider wrapper (unnamed/part\_000)\<close>

text \<open>
  \<open>newFuncProvider\<close>. \<open>reflect.TypeOf(provider).NumOut()\<close> panics when the provider is
  the nil interface or not a function.
\<close>

definition newFuncProvider :: "rvalue \<Rightarrow> (providerWrapper option \<times> error option) exec" where
  "newFuncProvider p =
     (case p of
        Value (Func ins outs variadic) d \<Rightarrow>
          if length outs \<le> 0 \<or> length outs > 2
            then Return (None, errors_WithStack (Some ErrIncorrectProviderType))
          else if length outs = 2 \<and> Implements (outs ! 1) errorInterface = Some False
            then Return (None, errors_WithStack (Some ErrIncorrectProviderType))
          else Return
            (Some \<lparr>providerType = providerTypeFunc, providerValue = p, resultType = outs ! 0\<rparr>,
             None)
      | _ \<Rightarrow> Panic)"

definition newStructProvider :: "rvalue \<Rightarrow> (providerWrapper option \<times> error option) exec" where
  "newStructProvider p = Return (None, Some (errors_New ''struct provider not implemented yet''))"

text \<open>\<open>args\<close>: \<open>w.providerValue.Type().NumIn()\<close> panics unless the value is a function.\<close>

definition args :: "'a providerWrapper_scheme \<Rightarrow> key list exec" where
  "args w =
     (case providerType w of
        providerTypeFunc \<Rightarrow>
          (case providerValue w of
             Value (Func ins outs variadic) d \<Rightarrow> Return (map key_of ins)
           | _ \<Rightarrow> Panic)
      | providerTypeStruct \<Rightarrow> Return [])"

section \<open>The world: definitions, variables and user code\<close>

text \<open>
  What the container's code reads and writes through pointers and calls:
  \<^item> \<open>heap\<close>: the definitions, a \<open>*definition\<close> being an index into it;
  \<^item> \<open>mem\<close>: the variables that the targets of \<open>Populate\<close> point to;
  \<^item> \<open>code\<close>: what each function value does when called (user code: it may return
    values, panic, or never return);
  \<^item> \<open>calls\<close>: the log of the calls made so far, the code with its arguments.
\<close>

record world =
  heap :: "definition' list"
  mem :: "nat \<Rightarrow> data"
  code :: "nat \<Rightarrow> rvalue list \<Rightarrow> rvalue list exec"
  calls :: "(nat \<times> rvalue list) list"

text \<open>
  A value as one of type \<open>t\<close> (what reflect does to an argument of \<open>Call\<close> and to the
  operand of \<open>Set\<close>): the value itself when its type is \<open>t\<close>, the value in an interface
  when \<open>t\<close> is an interface type that its type implements; \<open>None\<close> is reflect's panic.
\<close>

fun assign :: "rtype \<Rightarrow> rvalue \<Rightarrow> data option" where
  "assign t Invalid = None"
| "assign t (Value u d) =
     (if u = t then Some d
      else if Implements u t = Some True
        then Some (case u of Iface n ms \<Rightarrow> d | _ \<Rightarrow> Boxed u d)
      else None)"

fun assign_all :: "rtype list \<Rightarrow> rvalue list \<Rightarrow> rvalue list option" where
  "assign_all [] [] = Some []"
| "assign_all (t # ts) (v # vs) =
     (case assign t v of
        None \<Rightarrow> None
      | Some d \<Rightarrow> (case assign_all ts vs of None \<Rightarrow> None | Some r \<Rightarrow> Some (Value t d # r)))"
| "assign_all ts vs = None"

text \<open>The results of a call have the declared output types, one value each.\<close>

fun conforms :: "rtype list \<Rightarrow> rvalue list \<Rightarrow> bool" where
  "conforms [] [] = True"
| "conforms (t # ts) (Value u d # vs) = (u = t \<and> conforms ts vs)"
| "conforms ts vs = False"

fun data_of :: "rvalue \<Rightarrow> data" where
  "data_of (Value t d) = d"
| "data_of Invalid = Nil"

text \<open>
  The arguments of \<open>Call\<close> as the function receives them; \<open>None\<close> is reflect's panic.
  For a function that is not variadic there is one argument for each input, each
  assignable to it. For a variadic function with \<open>n + 1\<close> inputs there are at least \<open>n\<close>
  arguments, the first \<open>n\<close> assignable to the first \<open>n\<close> inputs; \<open>Call\<close> makes the slice
  of the last input itself, from the arguments that remain, each of which has to be
  assignable to the element type of that slice.
\<close>

definition pack :: "rtype list \<Rightarrow> bool \<Rightarrow> rvalue list \<Rightarrow> rvalue list option" where
  "pack ins variadic as =
     (if \<not> variadic then assign_all ins as
      else if ins = [] \<or> length as < length ins - 1 then None
      else case last ins of
        Slice t \<Rightarrow>
          (case assign_all (butlast ins) (take (length ins - 1) as) of
             None \<Rightarrow> None
           | Some fixed \<Rightarrow>
               (case assign_all (replicate (length as - (length ins - 1)) t)
                       (drop (length ins - 1) as) of
                  None \<Rightarrow> None
                | Some rest \<Rightarrow> Some (fixed @ [Value (Slice t) (Items (map data_of rest))])))
      | _ \<Rightarrow> None)"

text \<open>
  \<open>f.Call(as)\<close>: panics unless \<open>f\<close> is a non-nil function and the arguments fit its
  inputs; then the user code runs and the call is logged.
\<close>

definition Call :: "world \<Rightarrow> rvalue \<Rightarrow> rvalue list \<Rightarrow> (world \<times> rvalue list) exec" where
  "Call w f as =
     (case f of
        Value (Func ins outs variadic) (Code c) \<Rightarrow>
          (case pack ins variadic as of
             None \<Rightarrow> Panic
           | Some as' \<Rightarrow>
               (case code w c as' of
                  OutOfFuel \<Rightarrow> OutOfFuel
                | Panic \<Rightarrow> Panic
                | Return rs \<Rightarrow>
                    if conforms outs rs then Return (w\<lparr>calls := calls w @ [(c, as')]\<rparr>, rs)
                    else Panic))
      | _ \<Rightarrow> Panic)"

text \<open>\<open>v.IsNil()\<close>, called on pointers only.\<close>

fun IsNil :: "rvalue \<Rightarrow> bool" where
  "IsNil (Value t d) = (d = Nil)"
| "IsNil Invalid = False"

text \<open>
  \<open>v.Elem()\<close> of a non-nil pointer: the variable it points to, as its type and address.
  \<open>Elem\<close> panics on every kind but pointer and interface, and \<open>reflect.ValueOf\<close> never
  gives a Value of kind interface; the Value that \<open>Elem\<close> gives for a nil pointer is the
  zero Value, whose \<open>Type()\<close> panics.
\<close>

fun Elem :: "rvalue \<Rightarrow> (rtype \<times> nat) exec" where
  "Elem (Value (Ptr t) (Addr a)) = Return (t, a)"
| "Elem v = Panic"

text \<open>
  \<open>v.Interface()\<close>: the value as an \<open>interface{}\<close>, that is \<open>Nil\<close> or a dynamic type with
  data; for a Value of kind interface, what the interface holds.
\<close>

fun Interface :: "rvalue \<Rightarrow> data exec" where
  "Interface Invalid = Panic"
| "Interface (Value (Iface n ms) d) = Return d"
| "Interface (Value t d) = Return (Boxed t d)"

text \<open>The type assertion \<open>x.(error)\<close>: it panics on the nil interface and on a dynamic
  type that does not implement \<open>error\<close>.\<close>

fun assert_error :: "data \<Rightarrow> error option exec" where
  "assert_error (Boxed u d) =
     (if Implements u errorInterface = Some True then Return (Some (Dynamic u d)) else Panic)"
| "assert_error d = Panic"

section \<open>Lazy instantiation\<close>

text \<open>Running \<open>f\<close> on each definition of a list in order, collecting the instances; the
  first failure ends the run.\<close>

fun init_all ::
  "(world \<Rightarrow> addr \<Rightarrow> (world \<times> rvalue \<times> error option) exec) \<Rightarrow> world \<Rightarrow> addr list \<Rightarrow>
   (world \<times> rvalue list \<times> error option) exec" where
  "init_all f w [] = Return (w, [], None)"
| "init_all f w (a # as) =
     (case f w a of
        OutOfFuel \<Rightarrow> OutOfFuel
      | Panic \<Rightarrow> Panic
      | Return (w1, v, Some e) \<Rightarrow> Return (w1, [], Some e)
      | Return (w1, v, None) \<Rightarrow>
          (case init_all f w1 as of
             Return (w2, vs, None) \<Rightarrow> Return (w2, v # vs, None)
           | r \<Rightarrow> r))"

text \<open>Whether the failure output of a constructor is non-empty.\<close>

fun failure_output :: "rvalue list \<Rightarrow> error option" where
  "failure_output [v, Value t d] = (if d = Nil then None else Some (Dynamic t d))"
| "failure_output rs = None"

text \<open>
  Modelled from the spec: \<open>definition.init\<close> is not among the sources. Section 4.4: the
  memoized instance is returned when there is one; otherwise the incoming definitions
  are resolved in order, depth first, the constructor is called with their instances, a
  non-empty failure output fails the instantiation (annotated with the definition's
  identifier, and nothing cached), and a success caches the instance. The recursion
  follows the \<open>in\<close> lists and does not end on a cyclic graph: the first argument is
  the fuel, the depth of recursion allowed.
\<close>

primrec init :: "nat \<Rightarrow> world \<Rightarrow> addr \<Rightarrow> (world \<times> rvalue \<times> error option) exec" where
  "init 0 w d = OutOfFuel"
| "init (Suc n) w d =
     (if \<not> d < length (heap w) then Panic
      else case instance' (heap w ! d) of
        Some v \<Rightarrow> Return (w, v, None)
      | None \<Rightarrow>
          (case init_all (init n) w (in' (heap w ! d)) of
             OutOfFuel \<Rightarrow> OutOfFuel
           | Panic \<Rightarrow> Panic
           | Return (w1, vs, Some e) \<Rightarrow>
               Return (w1, Invalid, Some (Wrapped e ''%s'' [ArgKey (key (heap w ! d))]))
           | Return (w1, vs, None) \<Rightarrow>
               (case Call w1 (providerValue (provider (heap w1 ! d))) vs of
                  OutOfFuel \<Rightarrow> OutOfFuel
                | Panic \<Rightarrow> Panic
                | Return (w2, []) \<Rightarrow> Panic
                | Return (w2, v # rs) \<Rightarrow>
                    (case failure_output (v # rs) of
                       Some e \<Rightarrow>
                         Return (w2, Invalid, Some (Wrapped e ''%s'' [ArgKey (key (heap w ! d))]))
                     | None \<Rightarrow>
                         Return
                           (w2\<lparr>heap := (heap w2)[d := (heap w2 ! d)\<lparr>instance' := Some v\<rparr>]\<rparr>,
                            v, None)))))"

section \<open>Container (container.go)\<close>

text \<open>
  Modelled from the spec: the declarations of \<open>Logger\<close>, \<open>defaultLogger\<close>, \<open>Option\<close> and
  \<open>ProvideOption\<close> are not among the sources. A logger is the default one or a user's;
  an option is what its \<open>apply\<close> does to the container being configured (section 1: it
  hands over the provider and modifier registrations); the options of \<open>Populate\<close> are
  of any type \<open>'o\<close>.
\<close>

datatype logger = defaultLogger | userLogger nat

record Container =
  logger :: "logger option"
  providers :: "providerOptions list"
  modifiers :: "modifierOptions list"
  storage :: definitions

type_synonym Option = "Container \<Rightarrow> Container"

definition Populate ::
  "nat \<Rightarrow> world \<Rightarrow> Container \<Rightarrow> rvalue \<Rightarrow> 'o list \<Rightarrow> (world \<times> error option) exec" where
  "Populate fuel w c target options =
     (if \<not> IsValid target \<or> (Kind target = Ptr_kind \<and> IsNil target)
        then Return (w, Some (errors_New ''could not populate nil''))
      else case Elem target of
        OutOfFuel \<Rightarrow> OutOfFuel
      | Panic \<Rightarrow> Panic
      | Return (t, a) \<Rightarrow>
          (case get (storage c) (key_of t) of
             (r, Some err) \<Rightarrow> Return (w, errors_WithStack (Some err))
           | (None, None) \<Rightarrow> Panic
           | (Some def, None) \<Rightarrow>
               (case init fuel w def of
                  OutOfFuel \<Rightarrow> OutOfFuel
                | Panic \<Rightarrow> Panic
                | Return (w1, instance, Some err) \<Rightarrow>
                    Return (w1, errors_Wrapf (Some err) ''%s'' [ArgType t])
                | Return (w1, instance, None) \<Rightarrow>
                    (case assign t instance of
                       None \<Rightarrow> Panic
                     | Some v \<Rightarrow> Return (w1\<lparr>mem := (mem w1)(a := v)\<rparr>, None)))))"

text \<open>The loop of \<open>apply\<close> over the inputs of the modifier.\<close>

fun apply_args ::
  "nat \<Rightarrow> world \<Rightarrow> Container \<Rightarrow> rtype list \<Rightarrow> (world \<times> rvalue list \<times> error option) exec" where
  "apply_args fuel w c [] = Return (w, [], None)"
| "apply_args fuel w c (t # ts) =
     (case get (storage c) (key_of t) of
        (r, Some err) \<Rightarrow> Return (w, [], errors_WithStack (Some err))
      | (None, None) \<Rightarrow> Panic
      | (Some def, None) \<Rightarrow>
          (case init fuel w def of
             OutOfFuel \<Rightarrow> OutOfFuel
           | Panic \<Rightarrow> Panic
           | Return (w1, arg, Some err) \<Rightarrow>
               Return (w1, [], errors_Wrapf (Some err) ''%s'' [ArgDef def])
           | Return (w1, arg, None) \<Rightarrow>
               (case apply_args fuel w1 c ts of
                  Return (w2, as, None) \<Rightarrow> Return (w2, arg # as, None)
                | r \<Rightarrow> r)))"

definition apply' ::
  "nat \<Rightarrow> world \<Rightarrow> Container \<Rightarrow> modifierOptions \<Rightarrow> (world \<times> error option) exec" where
  "apply' fuel w c mo =
     (case modifier mo of
        Invalid \<Rightarrow> Return (w, Some (errors_New ''nil modifier''))
      | Value (Func ins outs variadic) d \<Rightarrow>
          if length outs > 1
            then Return (w, errors_WithStack (Some errIncorrectModifierSignature))
          else if length outs = 1 \<and> Implements (outs ! 0) errorInterface \<noteq> Some True
            then Return (w, errors_WithStack (Some errIncorrectModifierSignature))
          else
            (case apply_args fuel w c ins of
               OutOfFuel \<Rightarrow> OutOfFuel
             | Panic \<Rightarrow> Panic
             | Return (w1, as, Some err) \<Rightarrow> Return (w1, Some err)
             | Return (w1, as, None) \<Rightarrow>
                 (case Call w1 (modifier mo) as of
                    OutOfFuel \<Rightarrow> OutOfFuel
                  | Panic \<Rightarrow> Panic
                  | Return (w2, result) \<Rightarrow>
                      if length result = 1
                        then (case Interface (result ! 0) of
                                OutOfFuel \<Rightarrow> OutOfFuel
                              | Panic \<Rightarrow> Panic
                              | Return x \<Rightarrow>
                                  (case assert_error x of
                                     OutOfFuel \<Rightarrow> OutOfFuel
                                   | Panic \<Rightarrow> Panic
                                   | Return e \<Rightarrow> Return (w2, errors_Wrap e ''apply error'')))
                      else Return (w2, None)))
      | Value t d \<Rightarrow> Return (w, errors_WithStack (Some errIncorrectModifierSignature)))"

text \<open>
  Modelled from the spec: \<open>createDefinition\<close> is not among the sources. Sections 3 and
  4.3: the provider is wrapped (a callable by \<open>newFuncProvider\<close>, anything else by the
  unimplemented literal variant), and the definition is created with the identifier of
  the result type qualified by the registration's name, the identifiers of the declared
  capabilities, the wrapper with its argument identifiers, no edges, unmarked and with
  no instance. The new definition is allocated at the end of the heap.
\<close>

fun type_of :: "rvalue \<Rightarrow> rtype option" where
  "type_of Invalid = None"
| "type_of (Value t d) = Some t"

definition createDefinition ::
  "world \<Rightarrow> providerOptions \<Rightarrow> (world \<times> addr option \<times> error option) exec" where
  "createDefinition w po =
     (case (if Kind (providerOptions.provider po) = Func_kind
            then newFuncProvider (providerOptions.provider po)
            else newStructProvider (providerOptions.provider po)) of
        OutOfFuel \<Rightarrow> OutOfFuel
      | Panic \<Rightarrow> Panic
      | Return (r, Some err) \<Rightarrow> Return (w, None, Some err)
      | Return (None, None) \<Rightarrow> Panic
      | Return (Some wr, None) \<Rightarrow>
          (case args wr of
             OutOfFuel \<Rightarrow> OutOfFuel
           | Panic \<Rightarrow> Panic
           | Return ks \<Rightarrow>
               if None \<in> set (map type_of (providerOptions.implements po)) then Panic
               else Return
                 (w\<lparr>heap := heap w @
                    [\<lparr>key = \<lparr>typ' = resultType wr, name = providerOptions.name po\<rparr>,
                      implements =
                        map (\<lambda>v. key_of (the (type_of v))) (providerOptions.implements po),
                      provider = providerWrapper.extend wr (provider.fields ks),
                      in' = [], out = [], visited = visitMarkUnmarked, instance' = None\<rparr>]\<rparr>,
                  Some (length (heap w)), None)))"

text \<open>The first loop of \<open>compile\<close>: register providers.\<close>

fun register ::
  "world \<Rightarrow> definitions \<Rightarrow> providerOptions list \<Rightarrow> (world \<times> definitions \<times> error option) exec" where
  "register w s [] = Return (w, s, None)"
| "register w s (po # pos) =
     (if providerOptions.provider po = Invalid
        then Return (w, s, Some (errors_New ''could not provide nil''))
      else case createDefinition w po of
        OutOfFuel \<Rightarrow> OutOfFuel
      | Panic \<Rightarrow> Panic
      | Return (w1, r, Some err) \<Rightarrow> Return (w1, s, errors_Wrapf (Some err) ''provide failed'' [])
      | Return (w1, None, None) \<Rightarrow> Panic
      | Return (w1, Some def, None) \<Rightarrow>
          (case add (heap w1) s def of
             OutOfFuel \<Rightarrow> OutOfFuel
           | Panic \<Rightarrow> Panic
           | Return (s1, Some err) \<Rightarrow>
               Return (w1, s1, errors_Wrap (Some err) ''could not add definition'')
           | Return (s1, None) \<Rightarrow> register w1 s1 pos))"

text \<open>
  The second loop: connect definitions. \<open>link h d i\<close> is the body of the inner loop once
  the argument is resolved to \<open>i\<close>: \<open>def.in = append(def.in, in)\<close>, then
  \<open>in.out = append(in.out, def)\<close>.
\<close>

definition link :: "definition' list \<Rightarrow> addr \<Rightarrow> addr \<Rightarrow> definition' list" where
  "link h d i =
     (let h1 = h[d := (h ! d)\<lparr>in' := in' (h ! d) @ [i]\<rparr>]
      in h1[i := (h1 ! i)\<lparr>out := out (h1 ! i) @ [d]\<rparr>])"

fun connect_args :: "world \<Rightarrow> definitions \<Rightarrow> addr \<Rightarrow> key list \<Rightarrow> (world \<times> error option) exec" where
  "connect_args w s d [] = Return (w, None)"
| "connect_args w s d (k # ks) =
     (case get s k of
        (r, Some err) \<Rightarrow> Return (w, errors_WithStack (Some err))
      | (None, None) \<Rightarrow> Panic
      | (Some i, None) \<Rightarrow>
          if \<not> d < length (heap w) \<or> \<not> i < length (heap w) then Panic
          else connect_args (w\<lparr>heap := link (heap w) d i\<rparr>) s d ks)"

fun connect :: "world \<Rightarrow> definitions \<Rightarrow> addr option list \<Rightarrow> (world \<times> error option) exec" where
  "connect w s [] = Return (w, None)"
| "connect w s (None # ds) = Panic"
| "connect w s (Some d # ds) =
     (if \<not> d < length (heap w) then Panic
      else case connect_args w s d (arguments (provider (heap w ! d))) of
        Return (w1, None) \<Rightarrow> connect w1 s ds
      | r \<Rightarrow> r)"

section \<open>Cycle detection\<close>

definition mark :: "world \<Rightarrow> addr \<Rightarrow> visitMark \<Rightarrow> world" where
  "mark w d m = w\<lparr>heap := (heap w)[d := (heap w ! d)\<lparr>visited := m\<rparr>]\<rparr>"

text \<open>Running \<open>f\<close> on each definition of a list in order; the first failure ends the run.\<close>

fun visit_all ::
  "(world \<Rightarrow> addr \<Rightarrow> (world \<times> error option) exec) \<Rightarrow> world \<Rightarrow> addr list \<Rightarrow>
   (world \<times> error option) exec" where
  "visit_all f w [] = Return (w, None)"
| "visit_all f w (a # as) =
     (case f w a of
        Return (w1, None) \<Rightarrow> visit_all f w1 as
      | r \<Rightarrow> r)"

text \<open>
  Modelled from the spec: \<open>definition.visit\<close> is not among the sources. Section 4.3,
  step 3: a definition found done is skipped; one found in progress signals a cycle,
  reported as an error; an unmarked one is marked in progress on entry, its outgoing
  edges are traversed in order (a failure is passed on, annotated with the definition's
  identifier), and it is marked done on exit. The first argument is the fuel, the
  depth of recursion allowed.
\<close>

primrec visit :: "nat \<Rightarrow> world \<Rightarrow> addr \<Rightarrow> (world \<times> error option) exec" where
  "visit 0 w d = OutOfFuel"
| "visit (Suc n) w d =
     (if \<not> d < length (heap w) then Panic
      else case visited (heap w ! d) of
        visitMarkPermanent \<Rightarrow> Return (w, None)
      | visitMarkTemporary \<Rightarrow>
          Return (w, Some (errors_Errorf ''%s'' [ArgKey (key (heap w ! d))]))
      | visitMarkUnmarked \<Rightarrow>
          (case visit_all (visit n) (mark w d visitMarkTemporary) (out (heap w ! d)) of
             OutOfFuel \<Rightarrow> OutOfFuel
           | Panic \<Rightarrow> Panic
           | Return (w1, Some err) \<Rightarrow>
               Return (w1, errors_Wrapf (Some err) ''%s'' [ArgKey (key (heap w ! d))])
           | Return (w1, None) \<Rightarrow> Return (mark w1 d visitMarkPermanent, None)))"

text \<open>The third loop of \<open>compile\<close>: verify cycles.\<close>

fun verify :: "nat \<Rightarrow> world \<Rightarrow> addr option list \<Rightarrow> (world \<times> error option) exec" where
  "verify fuel w [] = Return (w, None)"
| "verify fuel w (None # ns) = Panic"
| "verify fuel w (Some n # ns) =
     (if \<not> n < length (heap w) then Panic
      else if visited (heap w ! n) = visitMarkUnmarked
        then (case visit fuel w n of
                OutOfFuel \<Rightarrow> OutOfFuel
              | Panic \<Rightarrow> Panic
              | Return (w1, Some err) \<Rightarrow> Return (w1, errors_Wrap (Some err) ''detect cycle'')
              | Return (w1, None) \<Rightarrow> verify fuel w1 ns)
      else verify fuel w ns)"

section \<open>Compilation and construction (container.go)\<close>

text \<open>The fourth loop of \<open>compile\<close>: apply modifiers.\<close>

fun apply_modifiers ::
  "nat \<Rightarrow> world \<Rightarrow> Container \<Rightarrow> modifierOptions list \<Rightarrow> (world \<times> error option) exec" where
  "apply_modifiers fuel w c [] = Return (w, None)"
| "apply_modifiers fuel w c (mo # mos) =
     (case apply' fuel w c mo of
        Return (w1, None) \<Rightarrow> apply_modifiers fuel w1 c mos
      | r \<Rightarrow> r)"

definition compile :: "nat \<Rightarrow> world \<Rightarrow> Container \<Rightarrow> (world \<times> Container \<times> error option) exec" where
  "compile fuel w c =
     (case register w (storage c) (providers c) of
        OutOfFuel \<Rightarrow> OutOfFuel
      | Panic \<Rightarrow> Panic
      | Return (w1, s1, Some err) \<Rightarrow> Return (w1, c\<lparr>storage := s1\<rparr>, Some err)
      | Return (w1, s1, None) \<Rightarrow>
          (case connect w1 s1 (all s1) of
             OutOfFuel \<Rightarrow> OutOfFuel
           | Panic \<Rightarrow> Panic
           | Return (w2, Some err) \<Rightarrow> Return (w2, c\<lparr>storage := s1\<rparr>, Some err)
           | Return (w2, None) \<Rightarrow>
               (case verify fuel w2 (all s1) of
                  OutOfFuel \<Rightarrow> OutOfFuel
                | Panic \<Rightarrow> Panic
                | Return (w3, Some err) \<Rightarrow> Return (w3, c\<lparr>storage := s1\<rparr>, Some err)
                | Return (w3, None) \<Rightarrow>
                    (case apply_modifiers fuel w3 (c\<lparr>storage := s1\<rparr>) (modifiers c) of
                       OutOfFuel \<Rightarrow> OutOfFuel
                     | Panic \<Rightarrow> Panic
                     | Return (w4, err) \<Rightarrow> Return (w4, c\<lparr>storage := s1\<rparr>, err)))))"

text \<open>The container that \<open>New\<close> builds and configures before it compiles it.\<close>

definition configure :: "Option list \<Rightarrow> Container" where
  "configure options =
     (let c0 = \<lparr>logger = None, providers = [], modifiers = [], storage = empty_storage\<rparr>;
          c1 = foldl (\<lambda>c opt. opt c) c0 options
      in if logger c1 = None then c1\<lparr>logger := Some defaultLogger\<rparr> else c1)"

text \<open>\<open>New\<close> returns the pair of a container pointer (\<open>None\<close> is nil) and an error.\<close>

definition New :: "nat \<Rightarrow> world \<Rightarrow> Option list \<Rightarrow> (world \<times> Container option \<times> error option) exec" where
  "New fuel w options =
     (case compile fuel w (configure options) of
        OutOfFuel \<Rightarrow> OutOfFuel
      | Panic \<Rightarrow> Panic
      | Return (w1, c, Some err) \<Rightarrow>
          Return (w1, None, errors_Wrapf (Some err) ''could not compile container'' [])
      | Return (w1, c, None) \<Rightarrow> Return (w1, Some c, None))"

text \<open>
  Modelled from the spec: the options are not among the sources. Section 6: a provider
  registration and a modifier registration, appended to the pending lists.
\<close>

definition Provide :: "rvalue \<Rightarrow> Option" where
  "Provide p c =
     c\<lparr>providers := providers c @
        [\<lparr>providerOptions.provider = p, providerOptions.name = [],
          providerOptions.implements = []\<rparr>]\<rparr>"

definition Apply :: "rvalue \<Rightarrow> Option" where
  "Apply m c = c\<lparr>modifiers := modifiers c @ [\<lparr>modifier = m\<rparr>]\<rparr>"

text \<open>
  The edges that the second loop of \<open>compile\<close> adds, in the order it adds them: for
  each definition \<open>d\<close> of the list and each key of its declared arguments that resolves
  to a definition \<open>i\<close>, the pair \<open>(d, i)\<close>. \<open>wire\<close> links them one after the other.
\<close>

fun key_edges :: "definitions \<Rightarrow> addr \<Rightarrow> key list \<Rightarrow> (addr \<times> addr) list" where
  "key_edges s d [] = []"
| "key_edges s d (k # ks) =
     (case fst (get s k) of None \<Rightarrow> key_edges s d ks | Some i \<Rightarrow> (d, i) # key_edges s d ks)"

fun arg_edges :: "definition' list \<Rightarrow> definitions \<Rightarrow> addr option list \<Rightarrow> (addr \<times> addr) list" where
  "arg_edges h s [] = []"
| "arg_edges h s (None # ds) = arg_edges h s ds"
| "arg_edges h s (Some d # ds) =
     key_edges s d (arguments (provider (h ! d))) @ arg_edges h s ds"

definition wire :: "definition' list \<Rightarrow> (addr \<times> addr) list \<Rightarrow> definition' list" where
  "wire h es = foldl (\<lambda>h e. link h (fst e) (snd e)) h es"

definition edges_ok :: "nat \<Rightarrow> (addr \<times> addr) list \<Rightarrow> bool" where
  "edges_ok n es = list_all (\<lambda>e. fst e < n \<and> snd e < n) es"

text \<open>
  The graph that the cycle check traverses: an edge from each definition to each
  definition of its \<open>out\<close> list. The other definitions state what the traversal keeps:
  edges stay within the heap; a done definition has only done successors and lies on no
  cycle; \<open>progress\<close>: edges stay, marks only go from unmarked to done; \<open>on_stack\<close>: every
  definition in progress reaches the one being visited; \<open>reaches_cycle\<close>: a cycle can be
  reached from the definition.
\<close>

definition edges :: "definition' list \<Rightarrow> (addr \<times> addr) set" where
  "edges h = {(a, b). a < length h \<and> b \<in> set (out (h ! a))}"

definition closed_edges :: "definition' list \<Rightarrow> bool" where
  "closed_edges h = (\<forall>a < length h. \<forall>b \<in> set (out (h ! a)). b < length h)"

definition done_closed :: "definition' list \<Rightarrow> bool" where
  "done_closed h =
     (\<forall>a < length h. visited (h ! a) = visitMarkPermanent \<longrightarrow>
        (\<forall>b \<in> set (out (h ! a)). visited (h ! b) = visitMarkPermanent))"

definition done_acyclic :: "definition' list \<Rightarrow> bool" where
  "done_acyclic h =
     (\<forall>a < length h. visited (h ! a) = visitMarkPermanent \<longrightarrow> (a, a) \<notin> (edges h)\<^sup>+)"

definition unmarked :: "definition' list \<Rightarrow> nat" where
  "unmarked h = card {a. a < length h \<and> visited (h ! a) = visitMarkUnmarked}"

definition progress :: "definition' list \<Rightarrow> definition' list \<Rightarrow> bool" where
  "progress h h' =
     (length h' = length h \<and>
      (\<forall>a < length h. out (h' ! a) = out (h ! a) \<and>
         (visited (h ! a) \<noteq> visitMarkUnmarked \<longrightarrow> visited (h' ! a) = visited (h ! a)) \<and>
         (visited (h' ! a) = visitMarkTemporary \<longrightarrow> visited (h ! a) = visitMarkTemporary)))"

definition on_stack :: "definition' list \<Rightarrow> addr \<Rightarrow> bool" where
  "on_stack h d =
     (\<forall>t < length h. visited (h ! t) = visitMarkTemporary \<longrightarrow> (t, d) \<in> (edges h)\<^sup>+)"

definition reaches_cycle :: "definition' list \<Rightarrow> addr \<Rightarrow> bool" where
  "reaches_cycle h d = (\<exists>a. (d, a) \<in> (edges h)\<^sup>* \<and> (a, a) \<in> (edges h)\<^sup>+)"

definition visit_ok ::
  "nat \<Rightarrow> (world \<Rightarrow> addr \<Rightarrow> (world \<times> error option) exec) \<Rightarrow> bool" where
  "visit_ok n f =
     (\<forall>w d. closed_edges (heap w) \<and> done_closed (heap w) \<and> done_acyclic (heap w) \<and>
         d < length (heap w) \<and> on_stack (heap w) d \<and> unmarked (heap w) < n \<longrightarrow>
       (\<exists>w' r. f w d = Return (w', r) \<and>
          (r = None \<longrightarrow> progress (heap w) (heap w') \<and>
             visited (heap w' ! d) = visitMarkPermanent \<and>
             done_closed (heap w') \<and> done_acyclic (heap w')) \<and>
          (r \<noteq> None \<longrightarrow> reaches_cycle (heap w) d)))"

text \<open>
  The fatal causes that the spec names for a failed construction, and the cause that an
  error of \<open>compile\<close> describes, read off its outermost message: a nil modifier, a modifier
  argument that cannot be constructed and a failure returned by a modifier all count as
  a modifier failure; every error of the provider wrapper ("provide failed"), that of
  the struct provider that is not implemented included, counts as an invalid provider
  signature.
\<close>

datatype cause =
    NilProvider | InvalidProviderSignature | DuplicateBinding | UnresolvedDependency
  | CycleDetected | InvalidModifierSignature | ModifierFailure

fun cause_of :: "error \<Rightarrow> cause option" where
  "cause_of (errors_New m) =
     (if m = ''could not provide nil'' then Some NilProvider
      else if m = ''nil modifier'' then Some ModifierFailure
      else None)"
| "cause_of (Wrapped e m as) =
     (if m = ''provide failed'' \<and> as = [] then Some InvalidProviderSignature
      else if m = ''could not add definition'' \<and> as = [] then Some DuplicateBinding
      else if m = ''detect cycle'' \<and> as = [] then Some CycleDetected
      else if m = ''apply error'' \<and> as = [] then Some ModifierFailure
      else if m = ''%s'' then (case as of [ArgDef d] \<Rightarrow> Some ModifierFailure | _ \<Rightarrow> None)
      else None)"
| "cause_of (Stacked e) =
     (if e = errIncorrectModifierSignature then Some InvalidModifierSignature
      else case e of
        errors_Errorf m as \<Rightarrow>
          (if m = ''type %s not provided'' then Some UnresolvedDependency else None)
      | _ \<Rightarrow> None)"
| "cause_of e = None"



section \<open>Example registrations\<close>

definition type_A :: rtype where "type_A = Named ''A'' [] []"
definition type_B :: rtype where "type_B = Named ''B'' [] []"
definition type_C :: rtype where "type_C = Named ''C'' [] []"
definition type_I :: rtype where "type_I = Iface ''I'' [''M()'']"

text \<open>A definition as it is before wiring: for a constructor \<open>func(ins...) t\<close> with code
  \<open>c\<close>, declaring the capabilities \<open>caps\<close>.\<close>

definition fresh_def :: "nat \<Rightarrow> rtype list \<Rightarrow> rtype \<Rightarrow> rtype list \<Rightarrow> definition'" where
  "fresh_def c ins t caps =
     \<lparr>key = key_of t, implements = map key_of caps,
      provider = \<lparr>providerType = providerTypeFunc,
                  providerValue = Value (Func ins [t] False) (Code c),
                  resultType = t, arguments = map key_of ins\<rparr>,
      in' = [], out = [], visited = visitMarkUnmarked, instance' = None\<rparr>"

text \<open>Two providers that both declare the capability \<open>I\<close>; the second one's own result
  type is \<open>I\<close>.\<close>

definition heap_AI :: "definition' list" where
  "heap_AI = [fresh_def 0 [] type_A [type_I], fresh_def 1 [] type_I [type_I]]"

text \<open>Two providers of \<open>A\<close> and \<open>B\<close> that both declare the capability \<open>I\<close>.\<close>

definition heap_AB :: "definition' list" where
  "heap_AB = [fresh_def 0 [] type_A [type_I], fresh_def 1 [] type_B [type_I]]"

text \<open>The modifier \<open>func() error { return nil }\<close>, and user code that returns a nil
  \<open>error\<close>.\<close>

definition nil_error_modifier :: modifierOptions where
  "nil_error_modifier = \<lparr>modifier = Value (Func [] [errorInterface] False) (Code 0)\<rparr>"

definition return_nil_error :: "nat \<Rightarrow> rvalue list \<Rightarrow> rvalue list exec" where
  "return_nil_error c as = Return [Value errorInterface Nil]"

text \<open>A world with no definitions and no calls made, where every function returns a
  nil \<open>error\<close>; a container with nothing registered; the value \<open>5\<close> of type \<open>int\<close>.\<close>

definition world0 :: world where
  "world0 = \<lparr>heap = [], mem = (\<lambda>a. Nil), code = return_nil_error, calls = []\<rparr>"

definition container0 :: Container where
  "container0 = configure []"

definition int_5 :: rvalue where
  "int_5 = Value (Named ''int'' [] []) (Lit ''5'')"

text \<open>
  Three constructors \<open>func(B) A\<close>, \<open>func(C) B\<close> and \<open>func() C\<close> (the acyclic chain
  A, B, C), a fourth \<open>func(A) C\<close> that closes the cycle A, B, C, A, the code they run,
  and a world with no definitions yet. The other definitions name the storage and the
  heaps that the stages of \<open>compile\<close> produce for them.
\<close>

definition abc_code :: "nat \<Rightarrow> rvalue list \<Rightarrow> rvalue list exec" where
  "abc_code c as =
     (if c = 0 then Return [Value type_A (Lit ''a'')]
      else if c = 1 then Return [Value type_B (Lit ''b'')]
      else if c = 2 then Return [Value type_C (Lit ''c'')]
      else Panic)"

definition world_abc :: world where
  "world_abc = \<lparr>heap = [], mem = (\<lambda>a. Nil), code = abc_code, calls = []\<rparr>"

definition provider_A :: rvalue where "provider_A = Value (Func [type_B] [type_A] False) (Code 0)"
definition provider_B :: rvalue where "provider_B = Value (Func [type_C] [type_B] False) (Code 1)"
definition provider_C :: rvalue where "provider_C = Value (Func [] [type_C] False) (Code 2)"
definition provider_C_A :: rvalue where "provider_C_A = Value (Func [type_A] [type_C] False) (Code 2)"

definition storage_abc :: definitions where
  "storage_abc = \<lparr>keys = [key_of type_A, key_of type_B, key_of type_C],
     definitions = [key_of type_A \<mapsto> 0, key_of type_B \<mapsto> 1, key_of type_C \<mapsto> 2],
     implementations = Map.empty\<rparr>"

definition heap_abc_fresh :: "definition' list" where
  "heap_abc_fresh =
     [fresh_def 0 [type_B] type_A [], fresh_def 1 [type_C] type_B [], fresh_def 2 [] type_C []]"

definition heap_abc_wired :: "definition' list" where
  "heap_abc_wired =
     [(fresh_def 0 [type_B] type_A [])\<lparr>in' := [1]\<rparr>,
      (fresh_def 1 [type_C] type_B [])\<lparr>in' := [2], out := [0]\<rparr>,
      (fresh_def 2 [] type_C [])\<lparr>out := [1]\<rparr>]"

definition heap_abc_done :: "definition' list" where
  "heap_abc_done = map (\<lambda>d. d\<lparr>visited := visitMarkPermanent\<rparr>) heap_abc_wired"

definition heap_cyc_fresh :: "definition' list" where
  "heap_cyc_fresh =
     [fresh_def 0 [type_B] type_A [], fresh_def 1 [type_C] type_B [], fresh_def 2 [type_A] type_C []]"

definition heap_cyc_wired :: "definition' list" where
  "heap_cyc_wired =
     [(fresh_def 0 [type_B] type_A [])\<lparr>in' := [1], out := [2]\<rparr>,
      (fresh_def 1 [type_C] type_B [])\<lparr>in' := [2], out := [0]\<rparr>,
      (fresh_def 2 [type_A] type_C [])\<lparr>in' := [0], out := [1]\<rparr>]"

definition heap_cyc_stuck :: "definition' list" where
  "heap_cyc_stuck = map (\<lambda>d. d\<lparr>visited := visitMarkTemporary\<rparr>) heap_cyc_wired"

definition cycle_error :: error where
  "cycle_error =
     Wrapped (Wrapped (Wrapped (errors_Errorf ''%s'' [ArgKey (key_of type_A)])
        ''%s'' [ArgKey (key_of type_B)]) ''%s'' [ArgKey (key_of type_C)])
        ''%s'' [ArgKey (key_of type_A)]"



text \<open>The registration of a nil provider, and that of \<open>func(B) A\<close>.\<close>

definition nil_registration :: providerOptions where
  "nil_registration =
     \<lparr>providerOptions.provider = Invalid, providerOptions.name = [],
      providerOptions.implements = []\<rparr>"

definition A_registration :: providerOptions where
  "A_registration =
     \<lparr>providerOptions.provider = provider_A, providerOptions.name = [],
      providerOptions.implements = []\<rparr>"




section \<open>Calling a function\<close>

lemma pack_not_variadic [simp]: "pack ins False as = assign_all ins as"
  by (simp add: pack_def)

text \<open>\<open>Call\<close> on \<open>func(xs ...t)\<close> with two arguments of type \<open>t\<close>: the function receives
  the slice of the two.\<close>

lemma Call_variadic_packs:
  "Call w (Value (Func [Slice t] outs True) (Code c)) [Value t d1, Value t d2] =
     (case code w c [Value (Slice t) (Items [d1, d2])] of
        OutOfFuel \<Rightarrow> OutOfFuel
      | Panic \<Rightarrow> Panic
      | Return rs \<Rightarrow>
          if conforms outs rs
          then Return (w\<lparr>calls := calls w @ [(c, [Value (Slice t) (Items [d1, d2])])]\<rparr>, rs)
          else Panic)"
  by (simp add: Call_def pack_def numeral_2_eq_2)

text \<open>\<open>Call\<close> on a variadic function with one argument for each input, the last one a
  slice \<open>[]t\<close> for the last input \<open>[]t\<close> (as \<open>apply\<close> passes the instances it resolved
  for the inputs), panics when \<open>t\<close> is a defined type: a \<open>[]t\<close> is not a \<open>t\<close>.\<close>

lemma Call_variadic_slice_panics:
  assumes "ins \<noteq> []" and "last ins = Slice (Named n vs ps)"
    and "length as = length ins" and "last as = Value (Slice (Named n vs ps)) d"
  shows "Call w (Value (Func ins outs True) (Code c)) as = Panic"
proof -
  from assms have as: "as \<noteq> []" by auto
  from assms as have "drop (length ins - 1) as = [Value (Slice (Named n vs ps)) d]"
    by (metis append_butlast_last_id append_eq_conv_conj length_butlast)
  moreover from assms have "length as - (length ins - 1) = Suc 0" by (cases ins) auto
  ultimately have "pack ins True as = None"
    using assms by (simp add: pack_def split: option.splits)
  then show ?thesis by (simp add: Call_def)
qed

section \<open>Properties of the storage\<close>

lemma add_implements_lookup:
  "(case add_implements m d ks k of None \<Rightarrow> [] | Some ds \<Rightarrow> ds) =
   (case m k of None \<Rightarrow> [] | Some ds \<Rightarrow> ds) @ replicate (count_list ks k) d"
  by (induction ks arbitrary: m) (auto simp: replicate_app_Cons_same)

lemma impls_add:
  "add h s d = Return (s', None) \<Longrightarrow>
   impls s' k = impls s k @ replicate (count_list (implements (h ! d)) k) d"
  by (auto simp: add_def impls_def add_implements_lookup split: if_splits)

lemma add_list_state:
  "add_list h s ds = Return (s', None) \<Longrightarrow>
   definitions s' k =
     (case definitions s k of Some d \<Rightarrow> Some d | None \<Rightarrow> find (\<lambda>d. key (h ! d) = k) ds) \<and>
   impls s' k = impls s k @ concat (map (claims h k) ds)"
proof (induction ds arbitrary: s)
  case Nil
  then show ?case by (simp split: option.splits)
next
  case (Cons d ds)
  then obtain s1 where a: "add h s d = Return (s1, None)"
    and r: "add_list h s1 ds = Return (s', None)"
    by (auto split: exec.splits prod.splits option.splits)
  from a have b: "definitions s (key (h ! d)) = None"
    "definitions s1 = (definitions s)(key (h ! d) \<mapsto> d)"
    by (auto simp: add_def split: if_splits)
  from Cons.IH[OF r] b impls_add[OF a, of k] show ?case
    by (auto simp: claims_def split: option.splits)
qed

lemma concat_claims_first:
  "(case concat (map (claims h k) ds) of [] \<Rightarrow> None | d # r \<Rightarrow> Some d) =
     find (\<lambda>d. k \<in> set (implements (h ! d))) ds"
proof (induction ds)
  case Nil
  then show ?case by simp
next
  case (Cons d ds)
  show ?case
  proof (cases "k \<in> set (implements (h ! d))")
    case True
    then have "count_list (implements (h ! d)) k > 0" by (metis count_list_0_iff gr0I)
    then obtain n where "count_list (implements (h ! d)) k = Suc n"
      by (cases "count_list (implements (h ! d)) k") auto
    with True show ?thesis by (simp add: claims_def)
  next
    case False
    then have "claims h k d = []" by (simp add: claims_def count_list_0_iff)
    with False Cons show ?thesis by simp
  qed
qed

lemma heap_AI_registered:
  "add_list heap_AI empty_storage [0, Suc 0] =
     Return (\<lparr>keys = [key_of type_A, key_of type_I],
               definitions = [key_of type_A \<mapsto> 0, key_of type_I \<mapsto> Suc 0],
               implementations = [key_of type_I \<mapsto> [0, Suc 0]]\<rparr>, None)"
  by (simp add: heap_AI_def empty_storage_def add_def fresh_def_def key_of_def
      type_A_def type_I_def)

lemma heap_AB_registered:
  "add_list heap_AB empty_storage [0, Suc 0] =
     Return (\<lparr>keys = [key_of type_A, key_of type_B],
               definitions = [key_of type_A \<mapsto> 0, key_of type_B \<mapsto> Suc 0],
               implementations = [key_of type_I \<mapsto> [0, Suc 0]]\<rparr>, None)"
  by (simp add: heap_AB_def empty_storage_def add_def fresh_def_def key_of_def
      type_A_def type_B_def type_I_def)

text \<open>
  C1, as amended. After the definitions \<open>ds\<close> have been registered in order into the
  empty storage, \<open>get k\<close> returns the definition registered under exactly \<open>k\<close> when
  there is one; otherwise the first registered definition that declares \<open>k\<close> among its
  capabilities when there is one; otherwise it fails with the "not provided" error. So
  of two providers declaring the same capability the first registered one is returned,
  as long as no definition is bound to exactly that identifier.
\<close>

theorem get_first_registered:
  assumes "add_list h empty_storage ds = Return (s, None)"
  shows "get s k =
    (case find (\<lambda>d. key (h ! d) = k) ds of
       Some d \<Rightarrow> (Some d, None)
     | None \<Rightarrow>
        (case find (\<lambda>d. k \<in> set (implements (h ! d))) ds of
           Some d \<Rightarrow> (Some d, None)
         | None \<Rightarrow> (None, Some (errors_Errorf ''type %s not provided'' [ArgKey k]))))"
proof -
  from add_list_state[OF assms, of k]
  have d: "definitions s k = find (\<lambda>d. key (h ! d) = k) ds"
    and i: "impls s k = concat (map (claims h k) ds)"
    by (simp_all add: empty_storage_def impls_def)
  show ?thesis
  proof (cases "concat (map (claims h k) ds)")
    case Nil
    with concat_claims_first[of h k ds]
    have "find (\<lambda>d. k \<in> set (implements (h ! d))) ds = None"
      by (simp del: concat_eq_Nil_conv)
    with Nil show ?thesis
      by (simp add: get_def d i del: concat_eq_Nil_conv split: option.splits)
  next
    case (Cons c cs)
    with concat_claims_first[of h k ds]
    have "find (\<lambda>d. k \<in> set (implements (h ! d))) ds = Some c" by simp
    with Cons show ?thesis
      by (simp add: get_def d i split: option.splits)
  qed
qed

theorem get_first_registered_witness:
  "add_list heap_AB empty_storage [0, Suc 0] =
     Return (\<lparr>keys = [key_of type_A, key_of type_B],
               definitions = [key_of type_A \<mapsto> 0, key_of type_B \<mapsto> Suc 0],
               implementations = [key_of type_I \<mapsto> [0, Suc 0]]\<rparr>, None) \<and>
   get \<lparr>keys = [key_of type_A, key_of type_B],
        definitions = [key_of type_A \<mapsto> 0, key_of type_B \<mapsto> Suc 0],
        implementations = [key_of type_I \<mapsto> [0, Suc 0]]\<rparr> (key_of type_I) = (Some 0, None) \<and>
   get \<lparr>keys = [key_of type_A, key_of type_B],
        definitions = [key_of type_A \<mapsto> 0, key_of type_B \<mapsto> Suc 0],
        implementations = [key_of type_I \<mapsto> [0, Suc 0]]\<rparr> (key_of type_B) = (Some 1, None) \<and>
   get \<lparr>keys = [key_of type_A, key_of type_B],
        definitions = [key_of type_A \<mapsto> 0, key_of type_B \<mapsto> Suc 0],
        implementations = [key_of type_I \<mapsto> [0, Suc 0]]\<rparr> (key_of type_C) =
     (None, Some (errors_Errorf ''type %s not provided'' [ArgKey (key_of type_C)]))"
proof -
  have k: "key (heap_AB ! 0) = key_of type_A" "key (heap_AB ! Suc 0) = key_of type_B"
    "implements (heap_AB ! 0) = [key_of type_I]" "implements (heap_AB ! Suc 0) = [key_of type_I]"
    by (simp_all add: heap_AB_def fresh_def_def)
  have n: "key_of type_A \<noteq> key_of type_I" "key_of type_B \<noteq> key_of type_I"
    "key_of type_A \<noteq> key_of type_B" "key_of type_A \<noteq> key_of type_C"
    "key_of type_B \<noteq> key_of type_C" "key_of type_I \<noteq> key_of type_C"
    by (simp_all add: key_of_def type_A_def type_B_def type_C_def type_I_def)
  from get_first_registered[OF heap_AB_registered, of "key_of type_I"]
    get_first_registered[OF heap_AB_registered, of "key_of type_B"]
    get_first_registered[OF heap_AB_registered, of "key_of type_C"]
  show ?thesis by (simp add: heap_AB_registered k n n[symmetric] del: add_list.simps)
qed

text \<open>
  C1 as stated fails: both providers of \<open>heap_AI\<close> declare the capability \<open>I\<close>, the
  first registered one is definition 0, and \<open>get\<close> returns definition 1, which is
  bound to exactly \<open>I\<close>.
\<close>

theorem get_capability_counterexample:
  "add_list heap_AI empty_storage [0, Suc 0] =
     Return (\<lparr>keys = [key_of type_A, key_of type_I],
               definitions = [key_of type_A \<mapsto> 0, key_of type_I \<mapsto> Suc 0],
               implementations = [key_of type_I \<mapsto> [0, Suc 0]]\<rparr>, None) \<and>
   key_of type_I \<in> set (implements (heap_AI ! 0)) \<and>
   key_of type_I \<in> set (implements (heap_AI ! Suc 0)) \<and>
   find (\<lambda>d. key_of type_I \<in> set (implements (heap_AI ! d))) [0, Suc 0] = Some 0 \<and>
   get \<lparr>keys = [key_of type_A, key_of type_I],
        definitions = [key_of type_A \<mapsto> 0, key_of type_I \<mapsto> Suc 0],
        implementations = [key_of type_I \<mapsto> [0, Suc 0]]\<rparr> (key_of type_I) = (Some 1, None)"
proof -
  have k: "implements (heap_AI ! 0) = [key_of type_I]" "implements (heap_AI ! Suc 0) = [key_of type_I]"
    by (simp_all add: heap_AI_def fresh_def_def)
  have n: "key_of type_I \<noteq> key_of type_A"
    by (simp add: key_of_def type_A_def type_I_def)
  show ?thesis by (simp add: heap_AI_registered k n n[symmetric] get_def del: add_list.simps)
qed

text \<open>
  C2. For a definition \<open>d\<close> (a valid pointer), \<open>add\<close> fails exactly when the key of \<open>d\<close>
  is already bound, with the "already provided" error and the storage as it was;
  otherwise it succeeds, the key is appended to the list of keys, the key is bound to
  \<open>d\<close>, and \<open>d\<close> is appended to the capability list of each capability it declares
  (once per declaration), the other lists staying as they were.
\<close>

theorem add_conflict_or_append:
  assumes "d < length h"
  shows "((\<exists>s' e. add h s d = Return (s', Some e)) \<longleftrightarrow> definitions s (key (h ! d)) \<noteq> None) \<and>
    (definitions s (key (h ! d)) \<noteq> None \<longrightarrow>
       add h s d =
         Return (s, Some (errors_Errorf ''%s already provided'' [ArgKey (key (h ! d))]))) \<and>
    (definitions s (key (h ! d)) = None \<longrightarrow>
       (\<exists>s'. add h s d = Return (s', None) \<and>
          keys s' = keys s @ [key (h ! d)] \<and>
          definitions s' = (definitions s)(key (h ! d) \<mapsto> d) \<and>
          (\<forall>k. impls s' k = impls s k @ replicate (count_list (implements (h ! d)) k) d)))"
proof (cases "definitions s (key (h ! d))")
  case None
  with assms obtain s' where a: "add h s d = Return (s', None)"
    and k: "keys s' = keys s @ [key (h ! d)]"
    and b: "definitions s' = (definitions s)(key (h ! d) \<mapsto> d)"
    by (simp add: add_def)
  from impls_add[OF a] a k b None show ?thesis by simp
next
  case (Some d')
  with assms show ?thesis by (simp add: add_def)
qed

theorem add_conflict_or_append_witness:
  "(0::nat) < length heap_AB \<and>
   add heap_AB empty_storage 0 =
     Return (\<lparr>keys = [key_of type_A], definitions = [key_of type_A \<mapsto> 0],
               implementations = [key_of type_I \<mapsto> [0]]\<rparr>, None) \<and>
   add heap_AB \<lparr>keys = [key_of type_A], definitions = [key_of type_A \<mapsto> 0],
                implementations = [key_of type_I \<mapsto> [0]]\<rparr> 0 =
     Return (\<lparr>keys = [key_of type_A], definitions = [key_of type_A \<mapsto> 0],
               implementations = [key_of type_I \<mapsto> [0]]\<rparr>,
             Some (errors_Errorf ''%s already provided'' [ArgKey (key_of type_A)]))"
proof -
  have l: "(0::nat) < length heap_AB" by (simp add: heap_AB_def)
  have k: "key (heap_AB ! 0) = key_of type_A" by (simp add: heap_AB_def fresh_def_def)
  have i: "implements (heap_AB ! 0) = [key_of type_I]" by (simp add: heap_AB_def fresh_def_def)
  have "add heap_AB empty_storage 0 =
     Return (\<lparr>keys = [key_of type_A], definitions = [key_of type_A \<mapsto> 0],
               implementations = [key_of type_I \<mapsto> [0]]\<rparr>, None)"
    using l by (simp add: add_def k i empty_storage_def)
  moreover from add_conflict_or_append[OF l, of "\<lparr>keys = [key_of type_A],
      definitions = [key_of type_A \<mapsto> 0], implementations = [key_of type_I \<mapsto> [0]]\<rparr>"]
  have "add heap_AB \<lparr>keys = [key_of type_A], definitions = [key_of type_A \<mapsto> 0],
                implementations = [key_of type_I \<mapsto> [0]]\<rparr> 0 =
     Return (\<lparr>keys = [key_of type_A], definitions = [key_of type_A \<mapsto> 0],
               implementations = [key_of type_I \<mapsto> [0]]\<rparr>,
             Some (errors_Errorf ''%s already provided'' [ArgKey (key_of type_A)]))"
    by (simp add: k)
  ultimately show ?thesis using l by blast
qed

section \<open>Properties of the provider wrapper\<close>

text \<open>
  C7. For a constructor, that is a value of a function type with inputs \<open>ins\<close> and
  outputs \<open>outs\<close>, \<open>newFuncProvider\<close> fails with \<open>ErrIncorrectProviderType\<close> exactly when
  the number of outputs is neither 1 nor 2, or it is 2 and the second output does not
  implement \<open>error\<close>; otherwise it returns the wrapper of the value whose result type is
  the first output, and \<open>args\<close> of that wrapper are the inputs in order, each as a key
  with the empty name. The result is computed from the type alone: neither the code of
  the function nor the world (its table of user code, its log of calls) occurs in it,
  so the constructor is not called.
\<close>

theorem newFuncProvider_signature:
  "newFuncProvider (Value (Func ins outs variadic) d) =
     (if (length outs \<noteq> 1 \<and> length outs \<noteq> 2) \<or>
         (length outs = 2 \<and> Implements (outs ! 1) errorInterface = Some False)
      then Return (None, Some (Stacked ErrIncorrectProviderType))
      else Return (Some \<lparr>providerType = providerTypeFunc,
                          providerValue = Value (Func ins outs variadic) d,
                          resultType = outs ! 0\<rparr>, None)) \<and>
   args \<lparr>providerType = providerTypeFunc, providerValue = Value (Func ins outs variadic) d,
         resultType = outs ! 0\<rparr> = Return (map key_of ins) \<and>
   map typ' (map key_of ins) = ins \<and>
   map name (map key_of ins) = replicate (length ins) []"
proof -
  have "map typ' (map key_of ins) = ins" by (induction ins) (simp_all add: key_of_def)
  moreover have "map name (map key_of ins) = replicate (length ins) []"
    by (induction ins) (simp_all add: key_of_def)
  moreover have "length outs \<noteq> 1 \<and> length outs \<noteq> 2 \<longleftrightarrow> length outs \<le> 0 \<or> length outs > 2"
    by arith
  ultimately show ?thesis by (simp add: newFuncProvider_def args_def)
qed

section \<open>Properties of Populate\<close>

lemma Populate_nil:
  "Populate fuel w c Invalid opts = Return (w, Some (errors_New ''could not populate nil''))"
  "Populate fuel w c (Value (Ptr t) Nil) opts =
     Return (w, Some (errors_New ''could not populate nil''))"
  by (simp_all add: Populate_def)


text \<open>
  C6 at its failing inputs. A target that is a plain value (of a defined type that is
  not a pointer) or a function is not refused with an error: \<open>rvalue.Elem()\<close> panics.
\<close>

theorem Populate_non_pointer_panics:
  "Populate fuel w c (Value (Named n vs ps) d) opts = Panic \<and>
   Populate fuel w c (Value (Func ins outs variadic) d) opts = Panic"
  by (simp add: Populate_def)

theorem Populate_non_pointer_panics_witness:
  "Populate 0 world0 container0 int_5 ([] :: nat list) = Panic"
  using Populate_non_pointer_panics[THEN conjunct1, of 0 world0 container0 "''int''" "[]" "[]"
      "Lit ''5''" "[] :: nat list"]
  by (simp add: int_5_def)

text \<open>
  C10. \<open>Populate\<close> does not read its options: with any two lists of options, of any
  types, the result, the world it leaves (definitions, target variables, log of calls)
  and the panics are the same.
\<close>

theorem Populate_ignores_options:
  "Populate fuel w c target (options1 :: 'a list) = Populate fuel w c target (options2 :: 'b list)"
  by (simp add: Populate_def)

theorem Populate_ignores_options_witness:
  "Populate 0 world0 container0 Invalid [True, False] =
     Populate 0 world0 container0 Invalid ([] :: nat list) \<and>
   Populate 0 world0 container0 Invalid ([] :: nat list) =
     Return (world0, Some (errors_New ''could not populate nil''))"
  using Populate_ignores_options[of 0 world0 container0 Invalid "[True, False]" "[] :: nat list"]
  by (simp add: Populate_nil)

section \<open>Properties of apply\<close>

lemma Call_conforms:
  "Call w (Value (Func ins outs variadic) d) as = Return (w', rs) \<Longrightarrow> conforms outs rs"
  by (auto simp: Call_def split: data.splits option.splits exec.splits if_splits)

lemma conforms_single:
  assumes "conforms [t] rs"
  shows "\<exists>d. rs = [Value t d]"
proof (cases rs)
  case Nil
  with assms show ?thesis by simp
next
  case (Cons v vs)
  with assms show ?thesis by (cases v; cases vs) auto
qed

lemma assert_error_Some: "assert_error x = Return e \<Longrightarrow> e \<noteq> None"
  by (cases x) (auto split: if_splits)

text \<open>A modifier with one output never lets \<open>apply\<close> return without an error: the type
  assertion panics on a nil result, and a result that is not nil is an error.\<close>

lemma apply_one_output_never_succeeds:
  "apply' fuel w c \<lparr>modifier = Value (Func ins [t] variadic) d\<rparr> \<noteq> Return (w', None)"
proof
  assume a: "apply' fuel w c \<lparr>modifier = Value (Func ins [t] variadic) d\<rparr> = Return (w', None)"
  then have i: "Implements t errorInterface = Some True"
    by (auto simp: apply'_def errors_WithStack.simps split: if_splits)
  from a i obtain w1 as where "apply_args fuel w c ins = Return (w1, as, None)"
    and "(case Call w1 (Value (Func ins [t] variadic) d) as of
            OutOfFuel \<Rightarrow> OutOfFuel
          | Panic \<Rightarrow> Panic
          | Return (w2, result) \<Rightarrow>
              if length result = 1
                then (case Interface (result ! 0) of
                        OutOfFuel \<Rightarrow> OutOfFuel
                      | Panic \<Rightarrow> Panic
                      | Return x \<Rightarrow>
                          (case assert_error x of
                             OutOfFuel \<Rightarrow> OutOfFuel
                           | Panic \<Rightarrow> Panic
                           | Return e \<Rightarrow> Return (w2, errors_Wrap e ''apply error'')))
              else Return (w2, None)) = Return (w', None)"
    by (auto simp: apply'_def split: exec.splits option.splits)
  then obtain w2 rs where c: "Call w1 (Value (Func ins [t] variadic) d) as = Return (w2, rs)"
    and r: "(if length rs = 1
               then (case Interface (rs ! 0) of
                       OutOfFuel \<Rightarrow> OutOfFuel
                     | Panic \<Rightarrow> Panic
                     | Return x \<Rightarrow>
                         (case assert_error x of
                            OutOfFuel \<Rightarrow> OutOfFuel
                          | Panic \<Rightarrow> Panic
                          | Return e \<Rightarrow> Return (w2, errors_Wrap e ''apply error'')))
             else Return (w2, None)) = Return (w', None)"
    by (auto split: exec.splits)
  from conforms_single[OF Call_conforms[OF c]] obtain d' where "rs = [Value t d']" by blast
  with r obtain x e where "assert_error x = Return e" "errors_Wrap e ''apply error'' = None"
    by (auto split: exec.splits)
  with assert_error_Some show False by (cases e) (auto simp: errors_Wrap_def)
qed

text \<open>
  C5 at its failing input. The modifier \<open>func() error { return nil }\<close> has a valid
  signature and no arguments, and it returns the nil failure outcome; \<open>apply\<close> does not
  return: \<open>result[0].Interface().(error)\<close> panics on the nil interface.
\<close>

theorem apply_nil_error_panics:
  "apply' fuel (w\<lparr>code := return_nil_error\<rparr>) c nil_error_modifier = Panic"
  by (simp add: apply'_def nil_error_modifier_def return_nil_error_def Call_def
      errorInterface_def)

section \<open>Properties of the wiring\<close>

lemma length_link [simp]: "length (link h d i) = length h"
  by (simp add: link_def Let_def)


lemma link_out:
  "d < length h \<Longrightarrow> i < length h \<Longrightarrow> x < length h \<Longrightarrow>
   out (link h d i ! x) = out (h ! x) @ (if x = i then [d] else [])"
  by (auto simp: link_def Let_def nth_list_update)

lemma nth_update_field:
  assumes "\<And>y. P (g y) = P y"
  shows "P (h[d := g (h ! d)] ! x) = P (h ! x)"
proof (cases "x = d")
  case True
  then show ?thesis by (cases "d < length h") (simp_all add: assms list_update_beyond)
next
  case False
  then show ?thesis by simp
qed

lemma link_provider: "provider (link h d i ! x) = provider (h ! x)"
proof -
  let ?h1 = "h[d := (\<lambda>y. y\<lparr>in' := in' y @ [i]\<rparr>) (h ! d)]"
  have "provider (?h1[i := (\<lambda>y. y\<lparr>out := out y @ [d]\<rparr>) (?h1 ! i)] ! x) = provider (?h1 ! x)"
    by (rule nth_update_field) simp
  also have "\<dots> = provider (h ! x)" by (rule nth_update_field) simp
  finally show ?thesis by (simp add: link_def Let_def)
qed

lemma link_key: "key (link h d i ! x) = key (h ! x)"
proof -
  let ?h1 = "h[d := (\<lambda>y. y\<lparr>in' := in' y @ [i]\<rparr>) (h ! d)]"
  have "key (?h1[i := (\<lambda>y. y\<lparr>out := out y @ [d]\<rparr>) (?h1 ! i)] ! x) = key (?h1 ! x)"
    by (rule nth_update_field) simp
  also have "\<dots> = key (h ! x)" by (rule nth_update_field) simp
  finally show ?thesis by (simp add: link_def Let_def)
qed

lemma length_wire [simp]: "length (wire h es) = length h"
  by (induction es arbitrary: h) (simp_all add: wire_def)

lemma wire_Nil [simp]: "wire h [] = h" by (simp add: wire_def)
lemma wire_Cons [simp]: "wire h (e # es) = wire (link h (fst e) (snd e)) es" by (simp add: wire_def)
lemma wire_append: "wire h (es @ fs) = wire (wire h es) fs" by (simp add: wire_def)

lemma wire_provider: "provider (wire h es ! x) = provider (h ! x)"
  by (induction es arbitrary: h) (simp_all add: link_provider)


lemma wire_out:
  "edges_ok (length h) es \<Longrightarrow> x < length h \<Longrightarrow>
   out (wire h es ! x) = out (h ! x) @ map fst (filter (\<lambda>e. snd e = x) es)"
  by (induction es arbitrary: h) (auto simp: edges_ok_def link_out)

lemma get_error:
  "get s k = (r, Some e) \<Longrightarrow> r = None \<and> e = errors_Errorf ''type %s not provided'' [ArgKey k]"
  by (auto simp: get_def split: option.splits list.splits)

lemma connect_args_ok:
  "connect_args w s d ks = Return (w', None) \<Longrightarrow>
   w' = w\<lparr>heap := wire (heap w) (key_edges s d ks)\<rparr> \<and>
   edges_ok (length (heap w)) (key_edges s d ks) \<and>
   map (\<lambda>k. fst (get s k)) ks = map (Some \<circ> snd) (key_edges s d ks) \<and>
   map fst (key_edges s d ks) = replicate (length ks) d"
proof (induction ks arbitrary: w)
  case Nil
  then show ?case by (simp add: edges_ok_def)
next
  case (Cons k ks)
  from Cons.prems obtain i where g: "get s k = (Some i, None)"
    and v: "d < length (heap w)" "i < length (heap w)"
    and r: "connect_args (w\<lparr>heap := link (heap w) d i\<rparr>) s d ks = Return (w', None)"
    by (auto split: prod.splits option.splits if_splits)
  from Cons.IH[OF r] g v show ?case by (simp add: edges_ok_def)
qed

lemma connect_args_error:
  "connect_args w s d ks = Return (w', Some e) \<Longrightarrow>
   \<exists>k \<in> set ks. get s k = (None, Some (errors_Errorf ''type %s not provided'' [ArgKey k])) \<and>
      e = Stacked (errors_Errorf ''type %s not provided'' [ArgKey k])"
proof (induction ks arbitrary: w)
  case Nil
  then show ?case by simp
next
  case (Cons k ks)
  show ?case
  proof (cases "get s k")
    case (Pair r e')
    show ?thesis
    proof (cases e')
      case None
      with Pair Cons.prems obtain i where "r = Some i"
        "connect_args (w\<lparr>heap := link (heap w) d i\<rparr>) s d ks = Return (w', Some e)"
        by (auto split: option.splits if_splits)
      from Cons.IH[OF this(2)] show ?thesis by auto
    next
      case (Some e0)
      with Pair get_error[of s k r e0] Cons.prems show ?thesis by auto
    qed
  qed
qed

lemma arg_edges_cong:
  "\<forall>x. provider (h' ! x) = provider (h ! x) \<Longrightarrow> arg_edges h' s ds = arg_edges h s ds"
  by (induction h s ds rule: arg_edges.induct) simp_all

lemma connect_ok:
  "connect w s ds = Return (w', None) \<Longrightarrow>
   w' = w\<lparr>heap := wire (heap w) (arg_edges (heap w) s ds)\<rparr> \<and>
   edges_ok (length (heap w)) (arg_edges (heap w) s ds) \<and>
   None \<notin> set ds \<and>
   (\<forall>d. Some d \<in> set ds \<longrightarrow> d < length (heap w) \<and>
      map (\<lambda>k. fst (get s k)) (arguments (provider (heap w ! d))) =
      map (Some \<circ> snd) (key_edges s d (arguments (provider (heap w ! d)))) \<and>
      map fst (key_edges s d (arguments (provider (heap w ! d)))) =
        replicate (length (arguments (provider (heap w ! d)))) d)"
proof (induction ds arbitrary: w)
  case Nil
  then show ?case by (simp add: edges_ok_def)
next
  case (Cons a ds)
  from Cons.prems obtain d where a: "a = Some d" by (cases a) auto
  with Cons.prems obtain w1 where v: "d < length (heap w)"
    and c: "connect_args w s d (arguments (provider (heap w ! d))) = Return (w1, None)"
    and r: "connect w1 s ds = Return (w', None)"
    by (auto split: if_splits exec.splits prod.splits option.splits)
  note A = connect_args_ok[OF c]
  note B = Cons.IH[OF r]
  from A have h1: "heap w1 = wire (heap w) (key_edges s d (arguments (provider (heap w ! d))))"
    by simp
  have p: "\<forall>x. provider (heap w1 ! x) = provider (heap w ! x)"
    by (simp add: h1 wire_provider)
  have e: "arg_edges (heap w1) s ds = arg_edges (heap w) s ds"
    by (rule arg_edges_cong[OF p])
  have l: "length (heap w1) = length (heap w)" by (simp add: h1)
  from A have w1: "w1 = w\<lparr>heap := wire (heap w) (key_edges s d (arguments (provider (heap w ! d))))\<rparr>"
    by simp
  from B have "w' = w1\<lparr>heap := wire (heap w1) (arg_edges (heap w1) s ds)\<rparr>" by simp
  then have "w' = w1\<lparr>heap := wire (heap w1) (arg_edges (heap w) s ds)\<rparr>" by (simp only: e)
  then have 1: "w' = w\<lparr>heap := wire (heap w) (arg_edges (heap w) s (a # ds))\<rparr>"
    by (simp add: w1 a wire_append)
  from B have "edges_ok (length (heap w1)) (arg_edges (heap w1) s ds)" by simp
  then have "edges_ok (length (heap w)) (arg_edges (heap w) s ds)" by (simp only: e l)
  with A have 2: "edges_ok (length (heap w)) (arg_edges (heap w) s (a # ds))"
    by (simp add: a edges_ok_def)
  from B have 3: "None \<notin> set (a # ds)" by (simp add: a)
  have 4: "d' < length (heap w) \<and>
      map (\<lambda>k. fst (get s k)) (arguments (provider (heap w ! d'))) =
      map (Some \<circ> snd) (key_edges s d' (arguments (provider (heap w ! d')))) \<and>
      map fst (key_edges s d' (arguments (provider (heap w ! d')))) =
        replicate (length (arguments (provider (heap w ! d')))) d'"
    if "Some d' \<in> set (a # ds)" for d'
  proof (cases "d' = d")
    case True
    with A v show ?thesis by simp
  next
    case False
    with that a have "Some d' \<in> set ds" by simp
    with B have "d' < length (heap w1) \<and>
      map (\<lambda>k. fst (get s k)) (arguments (provider (heap w1 ! d'))) =
      map (Some \<circ> snd) (key_edges s d' (arguments (provider (heap w1 ! d')))) \<and>
      map fst (key_edges s d' (arguments (provider (heap w1 ! d')))) =
        replicate (length (arguments (provider (heap w1 ! d')))) d'" by blast
    with p l show ?thesis by simp
  qed
  from 1 2 3 4 show ?case by blast
qed

lemma connect_error:
  "connect w s ds = Return (w', Some e) \<Longrightarrow>
   \<exists>d k. Some d \<in> set ds \<and> k \<in> set (arguments (provider (heap w ! d))) \<and>
      get s k = (None, Some (errors_Errorf ''type %s not provided'' [ArgKey k])) \<and>
      e = Stacked (errors_Errorf ''type %s not provided'' [ArgKey k])"
proof (induction ds arbitrary: w)
  case Nil
  then show ?case by simp
next
  case (Cons a ds)
  from Cons.prems obtain d where a: "a = Some d" by (cases a) auto
  with Cons.prems have v: "d < length (heap w)" by (auto split: if_splits)
  show ?case
  proof (cases "connect_args w s d (arguments (provider (heap w ! d)))")
    case OutOfFuel
    with Cons.prems a v show ?thesis by simp
  next
    case Panic
    with Cons.prems a v show ?thesis by simp
  next
    case (Return x)
    obtain w1 e1 where x: "x = (w1, e1)" by (cases x)
    show ?thesis
    proof (cases e1)
      case None
      with Return x Cons.prems a v have r: "connect w1 s ds = Return (w', Some e)" by simp
      from Return x None have c: "connect_args w s d (arguments (provider (heap w ! d))) = Return (w1, None)"
        by simp
      have "\<forall>x. provider (heap w1 ! x) = provider (heap w ! x)"
        using connect_args_ok[OF c] by (simp add: wire_provider)
      with Cons.IH[OF r] a show ?thesis by auto
    next
      case (Some e2)
      with Return x Cons.prems a v have "e2 = e" by simp
      with Return x Some
      have "connect_args w s d (arguments (provider (heap w ! d))) = Return (w1, Some e)"
        by simp
      from connect_args_error[OF this] a show ?thesis by fastforce
    qed
  qed
qed







section \<open>Properties of the cycle check\<close>

lemma progress_refl: "progress h h"
  by (simp add: progress_def)

lemma progressD:
  "progress h h' \<Longrightarrow> a < length h \<Longrightarrow>
   out (h' ! a) = out (h ! a) \<and>
   (visited (h ! a) \<noteq> visitMarkUnmarked \<longrightarrow> visited (h' ! a) = visited (h ! a)) \<and>
   (visited (h' ! a) = visitMarkTemporary \<longrightarrow> visited (h ! a) = visitMarkTemporary)"
  unfolding progress_def by blast

lemma progress_length: "progress h h' \<Longrightarrow> length h' = length h"
  unfolding progress_def by blast

lemma progress_trans:
  assumes "progress h h1" "progress h1 h2"
  shows "progress h h2"
proof -
  have l1: "length h1 = length h" by (rule progress_length[OF assms(1)])
  have l2: "length h2 = length h" using progress_length[OF assms(2)] l1 by simp
  have step: "out (h2 ! a) = out (h ! a) \<and>
         (visited (h ! a) \<noteq> visitMarkUnmarked \<longrightarrow> visited (h2 ! a) = visited (h ! a)) \<and>
         (visited (h2 ! a) = visitMarkTemporary \<longrightarrow> visited (h ! a) = visitMarkTemporary)"
    if a: "a < length h" for a
  proof -
    from a l1 have a1: "a < length h1" by simp
    note A = progressD[OF assms(1) a] and B = progressD[OF assms(2) a1]
    have o: "out (h2 ! a) = out (h ! a)" using A B by simp
    have k: "visited (h2 ! a) = visited (h ! a)" if u: "visited (h ! a) \<noteq> visitMarkUnmarked"
    proof -
      from A u have e1: "visited (h1 ! a) = visited (h ! a)" by blast
      with u have "visited (h1 ! a) \<noteq> visitMarkUnmarked" by simp
      with B have "visited (h2 ! a) = visited (h1 ! a)" by blast
      with e1 show ?thesis by simp
    qed
    have t: "visited (h ! a) = visitMarkTemporary" if u: "visited (h2 ! a) = visitMarkTemporary"
    proof -
      from B u have "visited (h1 ! a) = visitMarkTemporary" by blast
      with A show ?thesis by blast
    qed
    from o k t show ?thesis by blast
  qed
  show ?thesis
    unfolding progress_def
  proof (rule conjI)
    show "length h2 = length h" by (rule l2)
    show "\<forall>a<length h. out (h2 ! a) = out (h ! a) \<and>
         (visited (h ! a) \<noteq> visitMarkUnmarked \<longrightarrow> visited (h2 ! a) = visited (h ! a)) \<and>
         (visited (h2 ! a) = visitMarkTemporary \<longrightarrow> visited (h ! a) = visitMarkTemporary)"
      using step by blast
  qed
qed

lemma progress_edges: "progress h h' \<Longrightarrow> edges h' = edges h"
  by (auto simp: progress_def edges_def)

lemma progress_closed_edges: "progress h h' \<Longrightarrow> closed_edges h \<Longrightarrow> closed_edges h'"
  by (auto simp: progress_def closed_edges_def)

lemma progress_unmarked: "progress h h' \<Longrightarrow> unmarked h' \<le> unmarked h"
proof -
  assume p: "progress h h'"
  have "{a. a < length h' \<and> visited (h' ! a) = visitMarkUnmarked} \<subseteq>
        {a. a < length h \<and> visited (h ! a) = visitMarkUnmarked}"
    using p by (auto simp: progress_def)
  moreover have "finite {a. a < length h \<and> visited (h ! a) = visitMarkUnmarked}" by simp
  ultimately show ?thesis unfolding unmarked_def by (rule card_mono[rotated])
qed

lemma progress_on_stack:
  assumes p: "progress h h'" and s: "on_stack h d"
  shows "on_stack h' d"
proof -
  have "(t, d) \<in> (edges h)\<^sup>+" if "t < length h" "visited (h' ! t) = visitMarkTemporary" for t
  proof -
    from progressD[OF p that(1)] that have "visited (h ! t) = visitMarkTemporary" by blast
    with s that show ?thesis by (simp add: on_stack_def)
  qed
  moreover have "length h' = length h" using p by (rule progress_length)
  ultimately show ?thesis by (simp add: on_stack_def progress_edges[OF p])
qed

lemma heap_mark [simp]:
  "heap (mark w d m) = (heap w)[d := (heap w ! d)\<lparr>visited := m\<rparr>]"
  by (simp add: mark_def)

lemma out_mark [simp]: "out (h[d := (h ! d)\<lparr>visited := m\<rparr>] ! a) = out (h ! a)"
  by (rule nth_update_field[where g = "\<lambda>y. y\<lparr>visited := m\<rparr>"]) simp

lemma edges_mark [simp]: "edges (h[d := (h ! d)\<lparr>visited := m\<rparr>]) = edges h"
  by (simp add: edges_def)

lemma closed_edges_mark [simp]:
  "closed_edges (h[d := (h ! d)\<lparr>visited := m\<rparr>]) = closed_edges h"
  by (simp add: closed_edges_def)

lemma unmarked_mark:
  assumes "d < length h" "visited (h ! d) = visitMarkUnmarked"
  shows "unmarked (h[d := (h ! d)\<lparr>visited := visitMarkTemporary\<rparr>]) < unmarked h"
proof -
  let ?U = "{a. a < length h \<and> visited (h ! a) = visitMarkUnmarked}"
  let ?h = "h[d := (h ! d)\<lparr>visited := visitMarkTemporary\<rparr>]"
  have "{a. a < length ?h \<and> visited (?h ! a) = visitMarkUnmarked} = ?U - {d}"
  proof (rule set_eqI)
    fix a
    show "a \<in> {a. a < length ?h \<and> visited (?h ! a) = visitMarkUnmarked} \<longleftrightarrow> a \<in> ?U - {d}"
    proof (cases "a = d")
      case True
      with assms show ?thesis by simp
    next
      case False
      then show ?thesis by simp
    qed
  qed
  moreover have "card (?U - {d}) < card ?U"
  proof (rule card_Diff1_less)
    show "finite ?U" by simp
    show "d \<in> ?U" using assms by simp
  qed
  ultimately show ?thesis unfolding unmarked_def by simp
qed

lemma done_reach:
  assumes "closed_edges h" "done_closed h"
    and "(n, a) \<in> (edges h)\<^sup>*" "n < length h" "visited (h ! n) = visitMarkPermanent"
  shows "a < length h \<and> visited (h ! a) = visitMarkPermanent"
  using assms(3,4,5)
proof (induction rule: rtrancl_induct)
  case base
  then show ?case by simp
next
  case (step y z)
  with assms(1,2) show ?case by (auto simp: edges_def closed_edges_def done_closed_def)
qed

lemma visit_all_ok:
  assumes f: "visit_ok n f"
  shows "closed_edges (heap w) \<Longrightarrow> done_closed (heap w) \<Longrightarrow> done_acyclic (heap w) \<Longrightarrow>
    \<forall>o' \<in> set os. o' < length (heap w) \<and> on_stack (heap w) o' \<Longrightarrow> unmarked (heap w) < n \<Longrightarrow>
    \<exists>w' r. visit_all f w os = Return (w', r) \<and>
      (r = None \<longrightarrow> progress (heap w) (heap w') \<and>
         (\<forall>o' \<in> set os. visited (heap w' ! o') = visitMarkPermanent) \<and>
         done_closed (heap w') \<and> done_acyclic (heap w')) \<and>
      (r \<noteq> None \<longrightarrow> (\<exists>o' \<in> set os. reaches_cycle (heap w) o'))"
proof (induction os arbitrary: w)
  case Nil
  then show ?case by (simp add: progress_refl)
next
  case (Cons a os)
  obtain w1 r1 where v: "f w a = Return (w1, r1)"
    and ok: "r1 = None \<longrightarrow> progress (heap w) (heap w1) \<and>
             visited (heap w1 ! a) = visitMarkPermanent \<and>
             done_closed (heap w1) \<and> done_acyclic (heap w1)"
    and bad: "r1 \<noteq> None \<longrightarrow> reaches_cycle (heap w) a"
  proof -
    from Cons.prems have "closed_edges (heap w) \<and> done_closed (heap w) \<and> done_acyclic (heap w) \<and>
         a < length (heap w) \<and> on_stack (heap w) a \<and> unmarked (heap w) < n" by simp
    with f have "\<exists>w' r. f w a = Return (w', r) \<and>
          (r = None \<longrightarrow> progress (heap w) (heap w') \<and>
             visited (heap w' ! a) = visitMarkPermanent \<and>
             done_closed (heap w') \<and> done_acyclic (heap w')) \<and>
          (r \<noteq> None \<longrightarrow> reaches_cycle (heap w) a)"
      unfolding visit_ok_def by blast
    then show ?thesis using that by blast
  qed
  show ?case
  proof (cases r1)
    case (Some e)
    with v bad show ?thesis by auto
  next
    case None
    with ok have p: "progress (heap w) (heap w1)" by simp
    have l: "length (heap w1) = length (heap w)" using p by (rule progress_length)
    have "\<exists>w' r. visit_all f w1 os = Return (w', r) \<and>
      (r = None \<longrightarrow> progress (heap w1) (heap w') \<and>
         (\<forall>o' \<in> set os. visited (heap w' ! o') = visitMarkPermanent) \<and>
         done_closed (heap w') \<and> done_acyclic (heap w')) \<and>
      (r \<noteq> None \<longrightarrow> (\<exists>o' \<in> set os. reaches_cycle (heap w1) o'))"
    proof (rule Cons.IH)
      show "closed_edges (heap w1)" using p Cons.prems(1) by (rule progress_closed_edges)
      show "done_closed (heap w1)" "done_acyclic (heap w1)" using ok None by simp_all
      show "\<forall>o' \<in> set os. o' < length (heap w1) \<and> on_stack (heap w1) o'"
        using Cons.prems(4) p l by (auto intro: progress_on_stack)
      show "unmarked (heap w1) < n" using progress_unmarked[OF p] Cons.prems(5) by simp
    qed
    then obtain w' r where r: "visit_all f w1 os = Return (w', r)"
      and ok': "r = None \<longrightarrow> progress (heap w1) (heap w') \<and>
         (\<forall>o' \<in> set os. visited (heap w' ! o') = visitMarkPermanent) \<and>
         done_closed (heap w') \<and> done_acyclic (heap w')"
      and bad': "r \<noteq> None \<longrightarrow> (\<exists>o' \<in> set os. reaches_cycle (heap w1) o')"
      by blast
    have 1: "visit_all f w (a # os) = Return (w', r)" using v None r by simp
    have a: "a < length (heap w)" using Cons.prems(4) by simp
    have 2: "progress (heap w) (heap w') \<and> visited (heap w' ! a) = visitMarkPermanent"
      if n: "r = None"
    proof -
      from ok' n have p': "progress (heap w1) (heap w')" by simp
      from a l have "a < length (heap w1)" by simp
      from progressD[OF p' this] ok None have "visited (heap w' ! a) = visitMarkPermanent" by simp
      with progress_trans[OF p p'] show ?thesis by simp
    qed
    have 4: "reaches_cycle (heap w1) x = reaches_cycle (heap w) x" for x
      by (simp add: reaches_cycle_def progress_edges[OF p])
    show ?thesis
    proof (cases r)
      case None
      with 1 2 ok' show ?thesis by simp
    next
      case (Some e)
      with 1 bad' 4 show ?thesis by auto
    qed
  qed
qed

lemma done_closed_mark_temporary:
  assumes "done_closed h" "d < length h" "visited (h ! d) = visitMarkUnmarked"
  shows "done_closed (h[d := (h ! d)\<lparr>visited := visitMarkTemporary\<rparr>])"
  unfolding done_closed_def
proof (intro allI impI ballI)
  let ?h = "h[d := (h ! d)\<lparr>visited := visitMarkTemporary\<rparr>]"
  fix a b
  assume a: "a < length ?h" and v: "visited (?h ! a) = visitMarkPermanent"
    and b: "b \<in> set (out (?h ! a))"
  from a v assms have ad: "a \<noteq> d" by (cases "a = d") simp_all
  with v have va: "visited (h ! a) = visitMarkPermanent" by simp
  from b have "b \<in> set (out (h ! a))" by simp
  with assms(1) a va have vb: "visited (h ! b) = visitMarkPermanent"
    by (simp add: done_closed_def)
  with assms(3) have "b \<noteq> d" by auto
  with vb show "visited (?h ! b) = visitMarkPermanent" by simp
qed

lemma done_acyclic_mark_temporary:
  assumes "done_acyclic h" "d < length h" "visited (h ! d) = visitMarkUnmarked"
  shows "done_acyclic (h[d := (h ! d)\<lparr>visited := visitMarkTemporary\<rparr>])"
  unfolding done_acyclic_def
proof (intro allI impI)
  let ?h = "h[d := (h ! d)\<lparr>visited := visitMarkTemporary\<rparr>]"
  fix a
  assume a: "a < length ?h" and v: "visited (?h ! a) = visitMarkPermanent"
  from a v assms have ad: "a \<noteq> d" by (cases "a = d") simp_all
  with v have va: "visited (h ! a) = visitMarkPermanent" by simp
  with assms(1) a show "(a, a) \<notin> (edges ?h)\<^sup>+" by (simp add: done_acyclic_def)
qed

lemma on_stack_mark_temporary:
  assumes s: "on_stack h d" and d: "d < length h" and b: "b \<in> set (out (h ! d))"
  shows "on_stack (h[d := (h ! d)\<lparr>visited := visitMarkTemporary\<rparr>]) b"
  unfolding on_stack_def
proof (intro allI impI)
  let ?h = "h[d := (h ! d)\<lparr>visited := visitMarkTemporary\<rparr>]"
  fix t
  assume t: "t < length ?h" and v: "visited (?h ! t) = visitMarkTemporary"
  from d b have e: "(d, b) \<in> edges h" by (simp add: edges_def)
  show "(t, b) \<in> (edges ?h)\<^sup>+"
  proof (cases "t = d")
    case True
    with e show ?thesis by auto
  next
    case False
    with v have "visited (h ! t) = visitMarkTemporary" by simp
    with s t have "(t, d) \<in> (edges h)\<^sup>+" by (simp add: on_stack_def)
    with e show ?thesis by (simp add: trancl_into_trancl)
  qed
qed

lemma visit_step:
  assumes IH: "visit_ok n (visit n)"
    and ce: "closed_edges (heap w)" and dc: "done_closed (heap w)" and da: "done_acyclic (heap w)"
    and d: "d < length (heap w)" and st: "on_stack (heap w) d" and u: "unmarked (heap w) < Suc n"
  shows "\<exists>w' r. visit (Suc n) w d = Return (w', r) \<and>
          (r = None \<longrightarrow> progress (heap w) (heap w') \<and>
             visited (heap w' ! d) = visitMarkPermanent \<and>
             done_closed (heap w') \<and> done_acyclic (heap w')) \<and>
          (r \<noteq> None \<longrightarrow> reaches_cycle (heap w) d)"
proof (cases "visited (heap w ! d)")
  case visitMarkPermanent
  with d dc da show ?thesis by (simp add: progress_refl)
next
  case visitMarkTemporary
  with st d have "(d, d) \<in> (edges (heap w))\<^sup>+" by (simp add: on_stack_def)
  then have "reaches_cycle (heap w) d" unfolding reaches_cycle_def by blast
  with visitMarkTemporary d show ?thesis by simp
next
  case visitMarkUnmarked
  let ?H = "heap w"
  let ?wT = "mark w d visitMarkTemporary"
  let ?HT = "?H[d := (?H ! d)\<lparr>visited := visitMarkTemporary\<rparr>]"
  let ?os = "out (?H ! d)"
  have h0: "heap ?wT = ?HT" by simp
  have "\<exists>w' r. visit_all (visit n) ?wT ?os = Return (w', r) \<and>
      (r = None \<longrightarrow> progress (heap ?wT) (heap w') \<and>
         (\<forall>o' \<in> set ?os. visited (heap w' ! o') = visitMarkPermanent) \<and>
         done_closed (heap w') \<and> done_acyclic (heap w')) \<and>
      (r \<noteq> None \<longrightarrow> (\<exists>o' \<in> set ?os. reaches_cycle (heap ?wT) o'))"
  proof (rule visit_all_ok[OF IH])
    show "closed_edges (heap ?wT)" using ce by simp
    show "done_closed (heap ?wT)"
      unfolding h0 using dc d visitMarkUnmarked by (rule done_closed_mark_temporary)
    show "done_acyclic (heap ?wT)"
      unfolding h0 using da d visitMarkUnmarked by (rule done_acyclic_mark_temporary)
    show "\<forall>o' \<in> set ?os. o' < length (heap ?wT) \<and> on_stack (heap ?wT) o'"
    proof
      fix o' assume o: "o' \<in> set (out (heap w ! d))"
      with ce d have "o' < length ?H" by (simp add: closed_edges_def)
      moreover have "on_stack ?HT o'" by (rule on_stack_mark_temporary[OF st d o])
      ultimately show "o' < length (heap ?wT) \<and> on_stack (heap ?wT) o'" by simp
    qed
    show "unmarked (heap ?wT) < n"
      using unmarked_mark[OF d visitMarkUnmarked] u by simp
  qed
  then obtain w1 r where va: "visit_all (visit n) ?wT ?os = Return (w1, r)"
    and ok: "r = None \<longrightarrow> progress ?HT (heap w1) \<and>
         (\<forall>o' \<in> set ?os. visited (heap w1 ! o') = visitMarkPermanent) \<and>
         done_closed (heap w1) \<and> done_acyclic (heap w1)"
    and bad: "r \<noteq> None \<longrightarrow> (\<exists>o' \<in> set ?os. reaches_cycle ?HT o')"
    unfolding h0 by blast
  show ?thesis
  proof (cases r)
    case (Some e)
    with bad obtain o' a where o: "o' \<in> set ?os" and c: "(o', a) \<in> (edges ?H)\<^sup>*"
      "(a, a) \<in> (edges ?H)\<^sup>+"
      by (auto simp: reaches_cycle_def)
    from o d have "(d, o') \<in> edges ?H" by (simp add: edges_def)
    with c have "reaches_cycle ?H d" unfolding reaches_cycle_def
      by (meson converse_rtrancl_into_rtrancl)
    with va Some visitMarkUnmarked d show ?thesis by simp
  next
    case None
    let ?wB = "mark w1 d visitMarkPermanent"
    let ?HA = "heap w1"
    let ?HB = "?HA[d := (?HA ! d)\<lparr>visited := visitMarkPermanent\<rparr>]"
    from ok None have p: "progress ?HT ?HA"
      and osP: "\<forall>o' \<in> set ?os. visited (?HA ! o') = visitMarkPermanent"
      and dc1: "done_closed ?HA" and da1: "done_acyclic ?HA" by simp_all
    have l1: "length ?HA = length ?H" using progress_length[OF p] by simp
    have d0: "d < length ?HT" using d by simp
    have e1: "edges ?HA = edges ?H" using progress_edges[OF p] by simp
    have ce1: "closed_edges ?HA" using progress_closed_edges[OF p] ce by simp
    have T1: "visited (?HA ! d) = visitMarkTemporary"
      using progressD[OF p d0] d by simp
    have out1: "out (?HA ! a) = out (?H ! a)" if "a < length ?H" for a
    proof -
      from that have "a < length ?HT" by simp
      from progressD[OF p this] show ?thesis by simp
    qed
    have res: "visit (Suc n) w d = Return (?wB, None)"
      using va None visitMarkUnmarked d by simp
    have P: "visited (?HB ! d) = visitMarkPermanent" using d l1 by simp
    have prog: "progress ?H ?HB"
      unfolding progress_def
    proof (intro conjI allI impI)
      show "length ?HB = length ?H" using l1 by simp
    next
      fix a assume a: "a < length ?H"
      show "out (?HB ! a) = out (?H ! a)" using out1[OF a] by simp
    next
      fix a assume a: "a < length ?H" and nu: "visited (?H ! a) \<noteq> visitMarkUnmarked"
      with visitMarkUnmarked have ad: "a \<noteq> d" by auto
      from a have "a < length ?HT" by simp
      from progressD[OF p this] nu ad have "visited (?HA ! a) = visited (?H ! a)" by simp
      with ad show "visited (?HB ! a) = visited (?H ! a)" by simp
    next
      fix a assume a: "a < length ?H" and t: "visited (?HB ! a) = visitMarkTemporary"
      from t d l1 have ad: "a \<noteq> d" by (cases "a = d") simp_all
      with t have "visited (?HA ! a) = visitMarkTemporary" by simp
      moreover from a have "a < length ?HT" by simp
      ultimately have "visited (?HT ! a) = visitMarkTemporary" using progressD[OF p] by blast
      with ad show "visited (?H ! a) = visitMarkTemporary" by simp
    qed
    have dc': "done_closed ?HB"
      unfolding done_closed_def
    proof (intro allI impI ballI)
      fix a b
      assume a: "a < length ?HB" and v: "visited (?HB ! a) = visitMarkPermanent"
        and b: "b \<in> set (out (?HB ! a))"
      from a l1 have a': "a < length ?H" by simp
      from b have b1: "b \<in> set (out (?HA ! a))" by simp
      have "visited (?HA ! b) = visitMarkPermanent"
      proof (cases "a = d")
        case True
        with b1 out1[OF a'] have "b \<in> set ?os" by simp
        with osP show ?thesis by simp
      next
        case False
        with v have "visited (?HA ! a) = visitMarkPermanent" by simp
        with dc1 a' l1 b1 show ?thesis by (simp add: done_closed_def)
      qed
      then show "visited (?HB ! b) = visitMarkPermanent"
        using d l1 by (cases "b = d") simp_all
    qed
    have da': "done_acyclic ?HB"
      unfolding done_acyclic_def
    proof (intro allI impI)
      fix a
      assume a: "a < length ?HB" and v: "visited (?HB ! a) = visitMarkPermanent"
      show "(a, a) \<notin> (edges ?HB)\<^sup>+"
      proof (cases "a = d")
        case False
        with v have "visited (?HA ! a) = visitMarkPermanent" by simp
        with da1 a show ?thesis by (simp add: done_acyclic_def)
      next
        case True
        show ?thesis
        proof
          assume "(a, a) \<in> (edges ?HB)\<^sup>+"
          with True have "(d, d) \<in> (edges ?HA)\<^sup>+" by simp
          then obtain o' where s: "(d, o') \<in> edges ?HA" and r: "(o', d) \<in> (edges ?HA)\<^sup>*"
            by (meson tranclD)
          from s e1 have "(d, o') \<in> edges ?H" by simp
          then have "o' \<in> set ?os" by (simp add: edges_def)
          with osP ce d have "visited (?HA ! o') = visitMarkPermanent" "o' < length ?HA"
            by (simp_all add: closed_edges_def l1)
          with done_reach[OF ce1 dc1 r] have "visited (?HA ! d) = visitMarkPermanent" by simp
          with T1 show False by simp
        qed
      qed
    qed
    from res prog P dc' da' show ?thesis by simp
  qed
qed

lemma visit_ok_visit: "visit_ok n (visit n)"
proof (induction n)
  case 0
  show ?case by (simp add: visit_ok_def)
next
  case (Suc n)
  show ?case
    unfolding visit_ok_def
  proof (intro allI impI)
    fix w :: world and d
    assume "closed_edges (heap w) \<and> done_closed (heap w) \<and> done_acyclic (heap w) \<and>
         d < length (heap w) \<and> on_stack (heap w) d \<and> unmarked (heap w) < Suc n"
    then show "\<exists>w' r. visit (Suc n) w d = Return (w', r) \<and>
          (r = None \<longrightarrow> progress (heap w) (heap w') \<and>
             visited (heap w' ! d) = visitMarkPermanent \<and>
             done_closed (heap w') \<and> done_acyclic (heap w')) \<and>
          (r \<noteq> None \<longrightarrow> reaches_cycle (heap w) d)"
      using visit_step[OF Suc] by blast
  qed
qed

lemma on_stack_no_temporary:
  "\<forall>a < length h. visited (h ! a) \<noteq> visitMarkTemporary \<Longrightarrow> on_stack h d"
  by (simp add: on_stack_def)

lemma progress_no_temporary:
  assumes p: "progress h h'" and n: "\<forall>a < length h. visited (h ! a) \<noteq> visitMarkTemporary"
  shows "\<forall>a < length h'. visited (h' ! a) \<noteq> visitMarkTemporary"
proof (intro allI impI)
  fix a assume "a < length h'"
  with progress_length[OF p] have a: "a < length h" by simp
  from progressD[OF p a] n a show "visited (h' ! a) \<noteq> visitMarkTemporary" by blast
qed

lemma verify_ok:
  "closed_edges (heap w) \<Longrightarrow> done_closed (heap w) \<Longrightarrow> done_acyclic (heap w) \<Longrightarrow>
   \<forall>a < length (heap w). visited (heap w ! a) \<noteq> visitMarkTemporary \<Longrightarrow>
   \<forall>x \<in> set ns. \<exists>d. x = Some d \<and> d < length (heap w) \<Longrightarrow> unmarked (heap w) < fuel \<Longrightarrow>
   \<exists>w' r. verify fuel w ns = Return (w', r) \<and>
     (r = None \<longrightarrow> progress (heap w) (heap w') \<and>
        (\<forall>d. Some d \<in> set ns \<longrightarrow> visited (heap w' ! d) = visitMarkPermanent) \<and>
        done_closed (heap w') \<and> done_acyclic (heap w')) \<and>
     (r \<noteq> None \<longrightarrow> (\<exists>e. r = Some (Wrapped e ''detect cycle'' [])) \<and>
        (\<exists>d. Some d \<in> set ns \<and> reaches_cycle (heap w) d))"
proof (induction ns arbitrary: w)
  case Nil
  then show ?case by (simp add: progress_refl)
next
  case (Cons x ns)
  from Cons.prems(5) obtain n where x: "x = Some n" and n: "n < length (heap w)" by auto
  have rest: "\<forall>x \<in> set ns. \<exists>d. x = Some d \<and> d < length (heap w)" using Cons.prems(5) by simp
  show ?case
  proof (cases "visited (heap w ! n) = visitMarkUnmarked")
    case False
    with Cons.prems(4) n have P: "visited (heap w ! n) = visitMarkPermanent"
      by (cases "visited (heap w ! n)") auto
    from Cons.IH[OF Cons.prems(1,2,3,4) rest Cons.prems(6)]
    obtain w' r where v: "verify fuel w ns = Return (w', r)"
      and ok: "r = None \<longrightarrow> progress (heap w) (heap w') \<and>
        (\<forall>d. Some d \<in> set ns \<longrightarrow> visited (heap w' ! d) = visitMarkPermanent) \<and>
        done_closed (heap w') \<and> done_acyclic (heap w')"
      and bad: "r \<noteq> None \<longrightarrow> (\<exists>e. r = Some (Wrapped e ''detect cycle'' [])) \<and>
        (\<exists>d. Some d \<in> set ns \<and> reaches_cycle (heap w) d)"
      by blast
    have 1: "verify fuel w (x # ns) = Return (w', r)" using v x n False by simp
    have 2: "visited (heap w' ! n) = visitMarkPermanent" if "r = None"
    proof -
      from ok that have "progress (heap w) (heap w')" by simp
      from progressD[OF this n] P show ?thesis by simp
    qed
    show ?thesis
    proof (cases r)
      case None
      with 1 2 ok x show ?thesis by auto
    next
      case (Some e)
      with 1 bad x show ?thesis by auto
    qed
  next
    case True
    have "\<exists>w' r. visit fuel w n = Return (w', r) \<and>
          (r = None \<longrightarrow> progress (heap w) (heap w') \<and>
             visited (heap w' ! n) = visitMarkPermanent \<and>
             done_closed (heap w') \<and> done_acyclic (heap w')) \<and>
          (r \<noteq> None \<longrightarrow> reaches_cycle (heap w) n)"
      using visit_ok_visit[of fuel] Cons.prems(1,2,3,6) n on_stack_no_temporary[OF Cons.prems(4)]
      unfolding visit_ok_def by blast
    then obtain w1 r1 where v1: "visit fuel w n = Return (w1, r1)"
      and ok1: "r1 = None \<longrightarrow> progress (heap w) (heap w1) \<and>
             visited (heap w1 ! n) = visitMarkPermanent \<and>
             done_closed (heap w1) \<and> done_acyclic (heap w1)"
      and bad1: "r1 \<noteq> None \<longrightarrow> reaches_cycle (heap w) n"
      by blast
    show ?thesis
    proof (cases r1)
      case (Some e)
      with v1 x n True have "verify fuel w (x # ns) = Return (w1, Some (Wrapped e ''detect cycle'' []))"
        by (simp add: errors_Wrap_def)
      with bad1 Some x show ?thesis by auto
    next
      case None
      with ok1 have p: "progress (heap w) (heap w1)" and P1: "visited (heap w1 ! n) = visitMarkPermanent"
        and dc1: "done_closed (heap w1)" and da1: "done_acyclic (heap w1)" by simp_all
      have l: "length (heap w1) = length (heap w)" by (rule progress_length[OF p])
      have "\<exists>w' r. verify fuel w1 ns = Return (w', r) \<and>
        (r = None \<longrightarrow> progress (heap w1) (heap w') \<and>
        (\<forall>d. Some d \<in> set ns \<longrightarrow> visited (heap w' ! d) = visitMarkPermanent) \<and>
        done_closed (heap w') \<and> done_acyclic (heap w')) \<and>
        (r \<noteq> None \<longrightarrow> (\<exists>e. r = Some (Wrapped e ''detect cycle'' [])) \<and>
        (\<exists>d. Some d \<in> set ns \<and> reaches_cycle (heap w1) d))"
      proof (rule Cons.IH)
        show "closed_edges (heap w1)" using p Cons.prems(1) by (rule progress_closed_edges)
        show "done_closed (heap w1)" by (rule dc1)
        show "done_acyclic (heap w1)" by (rule da1)
        show "\<forall>a < length (heap w1). visited (heap w1 ! a) \<noteq> visitMarkTemporary"
          using p Cons.prems(4) by (rule progress_no_temporary)
        show "\<forall>x \<in> set ns. \<exists>d. x = Some d \<and> d < length (heap w1)" using rest l by simp
        show "unmarked (heap w1) < fuel" using progress_unmarked[OF p] Cons.prems(6) by simp
      qed
      then obtain w' r where v: "verify fuel w1 ns = Return (w', r)"
        and ok: "r = None \<longrightarrow> progress (heap w1) (heap w') \<and>
          (\<forall>d. Some d \<in> set ns \<longrightarrow> visited (heap w' ! d) = visitMarkPermanent) \<and>
          done_closed (heap w') \<and> done_acyclic (heap w')"
        and bad: "r \<noteq> None \<longrightarrow> (\<exists>e. r = Some (Wrapped e ''detect cycle'' [])) \<and>
          (\<exists>d. Some d \<in> set ns \<and> reaches_cycle (heap w1) d)"
        by blast
      have 1: "verify fuel w (x # ns) = Return (w', r)" using v v1 None x n True by simp
      have 2: "progress (heap w) (heap w') \<and> visited (heap w' ! n) = visitMarkPermanent"
        if "r = None"
      proof -
        from ok that have p': "progress (heap w1) (heap w')" by simp
        from n l have "n < length (heap w1)" by simp
        from progressD[OF p' this] P1 have "visited (heap w' ! n) = visitMarkPermanent" by simp
        with progress_trans[OF p p'] show ?thesis by simp
      qed
      have 3: "reaches_cycle (heap w1) d = reaches_cycle (heap w) d" for d
        by (simp add: reaches_cycle_def progress_edges[OF p])
      show ?thesis
      proof (cases r)
        case None
        with 1 2 ok x show ?thesis by auto
      next
        case (Some e)
        with 1 bad 3 x show ?thesis by auto
      qed
    qed
  qed
qed

lemma unmarked_le_length: "unmarked h \<le> length h"
proof -
  have "{a. a < length h \<and> visited (h ! a) = visitMarkUnmarked} \<subseteq> {..<length h}" by auto
  then have "card {a. a < length h \<and> visited (h ! a) = visitMarkUnmarked} \<le> card {..<length h}"
    by (rule card_mono[rotated]) simp
  then show ?thesis by (simp add: unmarked_def)
qed

lemma verify_cycle_iff:
  assumes ce: "closed_edges (heap w)"
    and un: "\<forall>a < length (heap w). visited (heap w ! a) = visitMarkUnmarked"
    and ns: "\<forall>x \<in> set ns. \<exists>d. x = Some d \<and> d < length (heap w)"
    and fuel: "length (heap w) < fuel"
  shows "\<exists>w' r. verify fuel w ns = Return (w', r) \<and>
     ((r \<noteq> None) = (\<exists>d. Some d \<in> set ns \<and> reaches_cycle (heap w) d)) \<and>
     (r \<noteq> None \<longrightarrow> (\<exists>e. r = Some (Wrapped e ''detect cycle'' [])))"
proof -
  have dc: "done_closed (heap w)" using un by (simp add: done_closed_def)
  have da: "done_acyclic (heap w)" using un by (simp add: done_acyclic_def)
  have nt: "\<forall>a < length (heap w). visited (heap w ! a) \<noteq> visitMarkTemporary" using un by simp
  have f: "unmarked (heap w) < fuel" using unmarked_le_length[of "heap w"] fuel by simp
  from verify_ok[OF ce dc da nt ns f]
  obtain w' r where v: "verify fuel w ns = Return (w', r)"
    and ok: "r = None \<longrightarrow> progress (heap w) (heap w') \<and>
        (\<forall>d. Some d \<in> set ns \<longrightarrow> visited (heap w' ! d) = visitMarkPermanent) \<and>
        done_closed (heap w') \<and> done_acyclic (heap w')"
    and bad: "r \<noteq> None \<longrightarrow> (\<exists>e. r = Some (Wrapped e ''detect cycle'' [])) \<and>
        (\<exists>d. Some d \<in> set ns \<and> reaches_cycle (heap w) d)"
    by blast
  have "\<not> reaches_cycle (heap w) d" if n: "r = None" and d: "Some d \<in> set ns" for d
  proof
    assume "reaches_cycle (heap w) d"
    then obtain a where r: "(d, a) \<in> (edges (heap w))\<^sup>*" and c: "(a, a) \<in> (edges (heap w))\<^sup>+"
      unfolding reaches_cycle_def by blast
    from ok n have p: "progress (heap w) (heap w')"
      and P: "visited (heap w' ! d) = visitMarkPermanent"
      and dc': "done_closed (heap w')" and da': "done_acyclic (heap w')" using d by simp_all
    have e: "edges (heap w') = edges (heap w)" by (rule progress_edges[OF p])
    have ce': "closed_edges (heap w')" using p ce by (rule progress_closed_edges)
    from ns d have "d < length (heap w)" by auto
    with progress_length[OF p] have dl: "d < length (heap w')" by simp
    from r e have "(d, a) \<in> (edges (heap w'))\<^sup>*" by simp
    from done_reach[OF ce' dc' this dl P] have "a < length (heap w')"
      "visited (heap w' ! a) = visitMarkPermanent" by simp_all
    with da' have "(a, a) \<notin> (edges (heap w'))\<^sup>+" by (simp add: done_acyclic_def)
    with c e show False by simp
  qed
  with v bad show ?thesis by blast
qed

section \<open>Properties of the stages of compile\<close>

lemma link_visited: "visited (link h d i ! x) = visited (h ! x)"
proof -
  let ?A = "h[d := (\<lambda>y. y\<lparr>in' := in' y @ [i]\<rparr>) (h ! d)]"
  have "visited (?A[i := (\<lambda>y. y\<lparr>out := out y @ [d]\<rparr>) (?A ! i)] ! x) = visited (?A ! x)"
    by (rule nth_update_field) simp
  also have "\<dots> = visited (h ! x)" by (rule nth_update_field) simp
  finally show ?thesis by (simp add: link_def Let_def)
qed

lemma wire_visited: "visited (wire h es ! x) = visited (h ! x)"
  by (induction es arbitrary: h) (simp_all add: link_visited)

lemma closed_edges_wire:
  assumes c: "closed_edges h" and e: "edges_ok (length h) es"
  shows "closed_edges (wire h es)"
  unfolding closed_edges_def
proof (intro allI impI ballI)
  fix a b
  assume a: "a < length (wire h es)" and b: "b \<in> set (out (wire h es ! a))"
  from a have a': "a < length h" by simp
  from b wire_out[OF e a'] have "b \<in> set (out (h ! a)) \<or> b \<in> fst ` set es" by auto
  then show "b < length (wire h es)"
  proof
    assume "b \<in> set (out (h ! a))"
    with c a' show ?thesis by (simp add: closed_edges_def)
  next
    assume "b \<in> fst ` set es"
    with e show ?thesis by (auto simp: edges_ok_def list_all_iff)
  qed
qed

lemma connect_preserves:
  assumes "connect w s ds = Return (w', None)" and "closed_edges (heap w)"
  shows "closed_edges (heap w') \<and> length (heap w') = length (heap w) \<and>
    (\<forall>a. visited (heap w' ! a) = visited (heap w ! a))"
proof -
  from connect_ok[OF assms(1)]
  have h: "heap w' = wire (heap w) (arg_edges (heap w) s ds)"
    and e: "edges_ok (length (heap w)) (arg_edges (heap w) s ds)" by simp_all
  from closed_edges_wire[OF assms(2) e] h show ?thesis by (simp add: wire_visited)
qed

lemma createDefinition_Return:
  assumes "createDefinition w po = Return (w1, r, e)"
  shows "(e = None \<longrightarrow> (\<exists>df. w1 = w\<lparr>heap := heap w @ [df]\<rparr> \<and> r = Some (length (heap w)) \<and>
            out df = [] \<and> visited df = visitMarkUnmarked)) \<and>
         (e \<noteq> None \<longrightarrow> w1 = w)"
  using assms
  by (auto simp: createDefinition_def split: exec.splits prod.splits option.splits if_splits)

lemma closed_edges_snoc:
  assumes "closed_edges h" "out df = []"
  shows "closed_edges (h @ [df])"
  unfolding closed_edges_def
proof (intro allI impI ballI)
  fix a b
  assume a: "a < length (h @ [df])" and b: "b \<in> set (out ((h @ [df]) ! a))"
  show "b < length (h @ [df])"
  proof (cases "a < length h")
    case True
    with b have "b \<in> set (out (h ! a))" by (simp add: nth_append)
    with assms(1) True have "b < length h" by (simp add: closed_edges_def)
    then show ?thesis by simp
  next
    case False
    with a have "a = length h" by simp
    with b assms(2) show ?thesis by simp
  qed
qed

lemma unmarked_snoc:
  assumes "\<forall>a < length h. visited (h ! a) = visitMarkUnmarked" "visited df = visitMarkUnmarked"
  shows "\<forall>a < length (h @ [df]). visited ((h @ [df]) ! a) = visitMarkUnmarked"
proof (intro allI impI)
  fix a assume a: "a < length (h @ [df])"
  show "visited ((h @ [df]) ! a) = visitMarkUnmarked"
  proof (cases "a < length h")
    case True
    with assms(1) show ?thesis by (simp add: nth_append)
  next
    case False
    with a have "a = length h" by simp
    with assms(2) show ?thesis by simp
  qed
qed

lemma register_preserves:
  "register w s ps = Return (w1, s1, r) \<Longrightarrow> closed_edges (heap w) \<Longrightarrow>
   \<forall>a < length (heap w). visited (heap w ! a) = visitMarkUnmarked \<Longrightarrow>
   closed_edges (heap w1) \<and> (\<forall>a < length (heap w1). visited (heap w1 ! a) = visitMarkUnmarked) \<and>
   length (heap w1) \<le> length (heap w) + length ps"
proof (induction ps arbitrary: w s)
  case Nil
  then show ?case by simp
next
  case (Cons po ps)
  show ?case
  proof (cases "providerOptions.provider po = Invalid")
    case True
    with Cons.prems show ?thesis by simp
  next
    case False
    with Cons.prems(1) obtain w2 r2 e2 where c: "createDefinition w po = Return (w2, r2, e2)"
      by (auto split: exec.splits)
    note C = createDefinition_Return[OF c]
    show ?thesis
    proof (cases e2)
      case (Some e)
      with C have "w2 = w" by simp
      moreover from Cons.prems(1) False c Some have "w1 = w2" by (cases r2) simp_all
      ultimately show ?thesis using Cons.prems by simp
    next
      case None
      with C obtain df where w2: "w2 = w\<lparr>heap := heap w @ [df]\<rparr>" and r2: "r2 = Some (length (heap w))"
        and df: "out df = []" "visited df = visitMarkUnmarked" by auto
      have ce2: "closed_edges (heap w2)" using closed_edges_snoc[OF Cons.prems(2) df(1)] w2 by simp
      have un2: "\<forall>a < length (heap w2). visited (heap w2 ! a) = visitMarkUnmarked"
        using unmarked_snoc[OF Cons.prems(3) df(2)] w2 by simp
      have l2: "length (heap w2) = Suc (length (heap w))" using w2 by simp
      from Cons.prems(1) False c None r2
      have "(case add (heap w2) s (length (heap w)) of
             OutOfFuel \<Rightarrow> OutOfFuel
           | Panic \<Rightarrow> Panic
           | Return (s1, Some err) \<Rightarrow>
               Return (w2, s1, errors_Wrap (Some err) ''could not add definition'')
           | Return (s1, None) \<Rightarrow> register w2 s1 ps) = Return (w1, s1, r)" by simp
      then consider (fail) "w1 = w2" | (ok) s2 where "register w2 s2 ps = Return (w1, s1, r)"
        by (auto split: exec.splits prod.splits option.splits)
      then show ?thesis
      proof cases
        case fail
        with ce2 un2 l2 show ?thesis by simp
      next
        case ok
        from Cons.IH[OF ok ce2 un2] l2 show ?thesis by simp
      qed
    qed
  qed
qed

lemma register_cause:
  "register w s ps = Return (w1, s1, Some e) \<Longrightarrow>
   cause_of e \<in> {Some NilProvider, Some InvalidProviderSignature, Some DuplicateBinding}"
proof (induction ps arbitrary: w s)
  case Nil
  then show ?case by simp
next
  case (Cons po ps)
  show ?case
  proof (cases "providerOptions.provider po = Invalid")
    case True
    with Cons.prems show ?thesis by auto
  next
    case False
    with Cons.prems consider
      (create) e0 where "e = Wrapped e0 ''provide failed'' []"
      | (add) e0 where "e = Wrapped e0 ''could not add definition'' []"
      | (rest) w2 s2 where "register w2 s2 ps = Return (w1, s1, Some e)"
      by (auto simp: errors_Wrap_def split: exec.splits prod.splits option.splits)
    then show ?thesis
    proof cases
      case create
      then show ?thesis by simp
    next
      case add
      then show ?thesis by simp
    next
      case rest
      from Cons.IH[OF rest] show ?thesis .
    qed
  qed
qed

lemma connect_cause:
  "connect w s ds = Return (w', Some e) \<Longrightarrow> cause_of e = Some UnresolvedDependency"
  using connect_error[of w s ds w' e] by (auto simp: errIncorrectModifierSignature_def)

lemma apply_args_cause:
  "apply_args fuel w c ts = Return (w', as, Some e) \<Longrightarrow>
   cause_of e \<in> {Some UnresolvedDependency, Some ModifierFailure}"
proof (induction ts arbitrary: w as)
  case Nil
  then show ?case by simp
next
  case (Cons t ts)
  from Cons.prems get_error[of "storage c" "key_of t"] consider
    (get) "e = Stacked (errors_Errorf ''type %s not provided'' [ArgKey (key_of t)])"
    | (init) e0 d where "e = Wrapped e0 ''%s'' [ArgDef d]"
    | (rest) w1 as1 where "apply_args fuel w1 c ts = Return (w', as1, Some e)"
    by (auto split: exec.splits prod.splits option.splits)
  then show ?case
  proof cases
    case get
    then show ?thesis by (simp add: errIncorrectModifierSignature_def)
  next
    case init
    then show ?thesis by simp
  next
    case rest
    from Cons.IH[OF rest] show ?thesis .
  qed
qed

lemma apply'_cause:
  assumes "apply' fuel w c mo = Return (w', Some e)"
  shows "cause_of e \<in> {Some UnresolvedDependency, Some InvalidModifierSignature, Some ModifierFailure}"
proof (cases "modifier mo")
  case Invalid
  with assms show ?thesis by (auto simp: apply'_def)
next
  case (Value t d)
  show ?thesis
  proof (cases t)
    case (Func ins outs variadic)
    show ?thesis
    proof (cases "length outs > 1 \<or> (length outs = 1 \<and> Implements (outs ! 0) errorInterface \<noteq> Some True)")
      case True
      with assms Value Func have "e = Stacked errIncorrectModifierSignature"
        by (auto simp: apply'_def split: if_splits)
      then show ?thesis by simp
    next
      case False
      with assms Value Func consider
        (args) w1 as where "apply_args fuel w c ins = Return (w1, as, Some e)"
        | (wrap) e0 where "errors_Wrap e0 ''apply error'' = Some e"
        by (auto simp: apply'_def split: exec.splits prod.splits option.splits if_splits)
      then show ?thesis
      proof cases
        case args
        from apply_args_cause[OF args] show ?thesis by auto
      next
        case wrap
        then show ?thesis by (cases e0) (auto simp: errors_Wrap_def)
      qed
    qed
  next
    case (Named n vs ps)
    with assms Value have "e = Stacked errIncorrectModifierSignature" by (auto simp: apply'_def)
    then show ?thesis by simp
  next
    case (Iface n ms)
    with assms Value have "e = Stacked errIncorrectModifierSignature" by (auto simp: apply'_def)
    then show ?thesis by simp
  next
    case (Ptr u)
    with assms Value have "e = Stacked errIncorrectModifierSignature" by (auto simp: apply'_def)
    then show ?thesis by simp  next
    case (Slice u)
    with assms Value have "e = Stacked errIncorrectModifierSignature" by (auto simp: apply'_def)
    then show ?thesis by simp
  qed
qed

lemma apply_modifiers_cause:
  "apply_modifiers fuel w c ms = Return (w', Some e) \<Longrightarrow>
   cause_of e \<in> {Some UnresolvedDependency, Some InvalidModifierSignature, Some ModifierFailure}"
proof (induction ms arbitrary: w)
  case Nil
  then show ?case by simp
next
  case (Cons m ms)
  from Cons.prems consider (here) "apply' fuel w c m = Return (w', Some e)"
    | (rest) w1 where "apply_modifiers fuel w1 c ms = Return (w', Some e)"
    by (auto split: exec.splits prod.splits option.splits)
  then show ?case
  proof cases
    case here
    then show ?thesis by (rule apply'_cause)
  next
    case rest
    then show ?thesis by (rule Cons.IH)
  qed
qed

lemma apply_modifiers_append:
  "apply_modifiers fuel w c (ms @ ns) =
     (case apply_modifiers fuel w c ms of
        Return (w1, None) \<Rightarrow> apply_modifiers fuel w1 c ns
      | r \<Rightarrow> r)"
  by (induction ms arbitrary: w) (auto split: exec.splits prod.splits option.splits)

lemma register_append:
  "register w s (ps @ qs) =
     (case register w s ps of
        Return (w1, s1, None) \<Rightarrow> register w1 s1 qs
      | r \<Rightarrow> r)"
  by (induction ps arbitrary: w s)
     (auto simp: errors_Wrap_def split: exec.splits prod.splits option.splits)

section \<open>The examples, evaluated\<close>

lemma keys_abc_distinct:
  "key_of type_A \<noteq> key_of type_B" "key_of type_A \<noteq> key_of type_C" "key_of type_B \<noteq> key_of type_C"
  "key_of type_B \<noteq> key_of type_A" "key_of type_C \<noteq> key_of type_A" "key_of type_C \<noteq> key_of type_B"
  by (simp_all add: key_of_def type_A_def type_B_def type_C_def)

lemma createDefinition_func:
  "createDefinition w \<lparr>providerOptions.provider = Value (Func ins [t] False) (Code c),
      providerOptions.name = [], providerOptions.implements = []\<rparr> =
   Return (w\<lparr>heap := heap w @ [fresh_def c ins t []]\<rparr>, Some (length (heap w)), None)"
  by (simp add: createDefinition_def newFuncProvider_def args_def fresh_def_def key_of_def
      providerWrapper.extend_def provider.fields_def)

lemma providers_configure3:
  "providers (configure [Provide p, Provide q, Provide r]) =
    [\<lparr>providerOptions.provider = p, providerOptions.name = [], providerOptions.implements = []\<rparr>,
     \<lparr>providerOptions.provider = q, providerOptions.name = [], providerOptions.implements = []\<rparr>,
     \<lparr>providerOptions.provider = r, providerOptions.name = [], providerOptions.implements = []\<rparr>]"
  "modifiers (configure [Provide p, Provide q, Provide r]) = []"
  "storage (configure [Provide p, Provide q, Provide r]) = empty_storage"
  by (simp_all add: configure_def Provide_def Let_def)

lemma add_fresh:
  "d < length h \<Longrightarrow> h ! d = fresh_def c ins t [] \<Longrightarrow> definitions s (key_of t) = None \<Longrightarrow>
   add h s d = Return (s\<lparr>keys := keys s @ [key_of t],
      definitions := (definitions s)(key_of t \<mapsto> d)\<rparr>, None)"
  by (simp add: add_def fresh_def_def)

lemma register_abc:
  "register world_abc empty_storage (providers (configure [Provide provider_A, Provide provider_B, Provide provider_C])) =
   Return (world_abc\<lparr>heap := heap_abc_fresh\<rparr>, storage_abc, None)"
  by (simp add: providers_configure3 provider_A_def provider_B_def provider_C_def
      createDefinition_func add_fresh world_abc_def empty_storage_def storage_abc_def keys_abc_distinct
      numeral_2_eq_2 heap_abc_fresh_def)

lemma get_abc:
  "get storage_abc (key_of type_A) = (Some 0, None)"
  "get storage_abc (key_of type_B) = (Some 1, None)"
  "get storage_abc (key_of type_C) = (Some 2, None)"
  by (simp_all add: get_def storage_abc_def keys_abc_distinct)

lemma all_abc: "all storage_abc = [Some 0, Some 1, Some 2]"
  by (simp add: all_def storage_abc_def keys_abc_distinct)

lemma connect_abc:
  "connect (world_abc\<lparr>heap := heap_abc_fresh\<rparr>) storage_abc (all storage_abc) =
   Return (world_abc\<lparr>heap := heap_abc_wired\<rparr>, None)"
  by (simp add: all_abc get_abc fresh_def_def link_def heap_abc_wired_def world_abc_def numeral_2_eq_2
      heap_abc_fresh_def)

lemma verify_abc:
  "verify 4 (world_abc\<lparr>heap := heap_abc_wired\<rparr>) (all storage_abc) =
   Return (world_abc\<lparr>heap := heap_abc_done\<rparr>, None)"
  by (simp add: all_abc fresh_def_def heap_abc_wired_def heap_abc_done_def world_abc_def mark_def
      numeral_2_eq_2 eval_nat_numeral)

lemma New_abc:
  "New 4 world_abc [Provide provider_A, Provide provider_B, Provide provider_C] =
   Return (world_abc\<lparr>heap := heap_abc_done\<rparr>,
     Some ((configure [Provide provider_A, Provide provider_B, Provide provider_C])\<lparr>storage := storage_abc\<rparr>),
     None)"
  by (simp add: New_def compile_def register_abc connect_abc verify_abc providers_configure3(2,3))

lemma register_cyc:
  "register world_abc empty_storage
     (providers (configure [Provide provider_A, Provide provider_B, Provide provider_C_A])) =
   Return (world_abc\<lparr>heap := heap_cyc_fresh\<rparr>, storage_abc, None)"
  by (simp add: providers_configure3 provider_A_def provider_B_def provider_C_A_def
      createDefinition_func add_fresh world_abc_def empty_storage_def storage_abc_def
      keys_abc_distinct numeral_2_eq_2 heap_cyc_fresh_def)

lemma connect_cyc:
  "connect (world_abc\<lparr>heap := heap_cyc_fresh\<rparr>) storage_abc (all storage_abc) =
   Return (world_abc\<lparr>heap := heap_cyc_wired\<rparr>, None)"
  by (simp add: all_abc get_abc fresh_def_def link_def heap_cyc_wired_def world_abc_def
      numeral_2_eq_2 heap_cyc_fresh_def)

lemma verify_cyc:
  "verify 4 (world_abc\<lparr>heap := heap_cyc_wired\<rparr>) (all storage_abc) =
   Return (world_abc\<lparr>heap := heap_cyc_stuck\<rparr>, Some (Wrapped cycle_error ''detect cycle'' []))"
  by (simp add: all_abc fresh_def_def heap_cyc_wired_def heap_cyc_stuck_def world_abc_def
      mark_def numeral_2_eq_2 eval_nat_numeral cycle_error_def errors_Wrap_def)

lemma New_cyc:
  "New 4 world_abc [Provide provider_A, Provide provider_B, Provide provider_C_A] =
   Return (world_abc\<lparr>heap := heap_cyc_stuck\<rparr>, None,
     Some (Wrapped (Wrapped cycle_error ''detect cycle'' []) ''could not compile container'' []))"
  by (simp add: New_def compile_def register_cyc connect_cyc verify_cyc providers_configure3(2,3))

lemma compile_cycle_stage:
  assumes ce: "closed_edges (heap w)"
    and un: "\<forall>a < length (heap w). visited (heap w ! a) = visitMarkUnmarked"
    and fuel: "length (heap w) + length (providers c) < fuel"
  shows "(\<exists>w' c' e. compile fuel w c = Return (w', c', Some (Wrapped e ''detect cycle'' []))) \<longleftrightarrow>
     (\<exists>w1 s1 w2 d. register w (storage c) (providers c) = Return (w1, s1, None) \<and>
        connect w1 s1 (all s1) = Return (w2, None) \<and>
        Some d \<in> set (all s1) \<and> reaches_cycle (heap w2) d)"
proof
  assume "\<exists>w' c' e. compile fuel w c = Return (w', c', Some (Wrapped e ''detect cycle'' []))"
  then obtain w' c' e where
    c: "compile fuel w c = Return (w', c', Some (Wrapped e ''detect cycle'' []))" by blast
  let ?E = "Wrapped e ''detect cycle'' []"
  have cause: "cause_of ?E = Some CycleDetected" by simp
  from c obtain w1 s1 r1 where reg: "register w (storage c) (providers c) = Return (w1, s1, r1)"
    by (auto simp: compile_def split: exec.splits)
  have r1: "r1 = None"
  proof (cases r1)
    case (Some e1)
    with c reg have "e1 = ?E" by (simp add: compile_def)
    with register_cause[of w "storage c" "providers c" w1 s1 e1] reg Some cause show ?thesis
      by auto
  qed simp
  from c reg r1 obtain w2 r2 where con: "connect w1 s1 (all s1) = Return (w2, r2)"
    by (auto simp: compile_def split: exec.splits)
  have r2: "r2 = None"
  proof (cases r2)
    case (Some e2)
    with c reg r1 con have "e2 = ?E" by (simp add: compile_def)
    with connect_cause[of w1 s1 "all s1" w2 e2] con Some cause show ?thesis by auto
  qed simp
  note R = register_preserves[OF reg ce un]
  note C = connect_preserves[OF con[unfolded r2]] connect_ok[OF con[unfolded r2]]
  from R C have ce2: "closed_edges (heap w2)"
    and un2: "\<forall>a < length (heap w2). visited (heap w2 ! a) = visitMarkUnmarked"
    and l2: "length (heap w2) < fuel" using fuel by simp_all
  have ns: "\<forall>x \<in> set (all s1). \<exists>d. x = Some d \<and> d < length (heap w2)"
  proof
    fix x assume x: "x \<in> set (all s1)"
    with C(2) obtain d where "x = Some d" by (cases x) auto
    with x C show "\<exists>d. x = Some d \<and> d < length (heap w2)" by auto
  qed
  from verify_cycle_iff[OF ce2 un2 ns l2] obtain w3 r3 where
    v: "verify fuel w2 (all s1) = Return (w3, r3)"
    and iff: "(r3 \<noteq> None) = (\<exists>d. Some d \<in> set (all s1) \<and> reaches_cycle (heap w2) d)"
    by blast
  have "r3 \<noteq> None"
  proof
    assume n: "r3 = None"
    with c reg r1 con r2 v obtain w4 where
      "apply_modifiers fuel w3 (c\<lparr>storage := s1\<rparr>) (modifiers c) = Return (w4, Some ?E)"
      by (auto simp: compile_def split: exec.splits)
    from apply_modifiers_cause[OF this] cause show False by simp
  qed
  with iff reg r1 con r2 show "\<exists>w1 s1 w2 d. register w (storage c) (providers c) = Return (w1, s1, None) \<and>
        connect w1 s1 (all s1) = Return (w2, None) \<and>
        Some d \<in> set (all s1) \<and> reaches_cycle (heap w2) d" by blast
next
  assume "\<exists>w1 s1 w2 d. register w (storage c) (providers c) = Return (w1, s1, None) \<and>
        connect w1 s1 (all s1) = Return (w2, None) \<and>
        Some d \<in> set (all s1) \<and> reaches_cycle (heap w2) d"
  then obtain w1 s1 w2 d where reg: "register w (storage c) (providers c) = Return (w1, s1, None)"
    and con: "connect w1 s1 (all s1) = Return (w2, None)"
    and d: "Some d \<in> set (all s1)" "reaches_cycle (heap w2) d" by blast
  note R = register_preserves[OF reg ce un]
  note C = connect_preserves[OF con] connect_ok[OF con]
  from R C have ce2: "closed_edges (heap w2)"
    and un2: "\<forall>a < length (heap w2). visited (heap w2 ! a) = visitMarkUnmarked"
    and l2: "length (heap w2) < fuel" using fuel by simp_all
  have ns: "\<forall>x \<in> set (all s1). \<exists>d. x = Some d \<and> d < length (heap w2)"
  proof
    fix x assume x: "x \<in> set (all s1)"
    with C(2) obtain d where "x = Some d" by (cases x) auto
    with x C show "\<exists>d. x = Some d \<and> d < length (heap w2)" by auto
  qed
  from verify_cycle_iff[OF ce2 un2 ns l2] d obtain w3 e where
    "verify fuel w2 (all s1) = Return (w3, Some (Wrapped e ''detect cycle'' []))"
    by blast
  with reg con show "\<exists>w' c' e. compile fuel w c = Return (w', c', Some (Wrapped e ''detect cycle'' []))"
    by (simp add: compile_def)
qed

lemma compile_abc:
  "compile 4 world_abc (configure [Provide provider_A, Provide provider_B, Provide provider_C]) =
   Return (world_abc\<lparr>heap := heap_abc_done\<rparr>,
     (configure [Provide provider_A, Provide provider_B, Provide provider_C])\<lparr>storage := storage_abc\<rparr>,
     None)"
  by (simp add: compile_def register_abc connect_abc verify_abc providers_configure3(2,3))

lemma compile_cyc:
  "compile 4 world_abc (configure [Provide provider_A, Provide provider_B, Provide provider_C_A]) =
   Return (world_abc\<lparr>heap := heap_cyc_stuck\<rparr>,
     (configure [Provide provider_A, Provide provider_B, Provide provider_C_A])\<lparr>storage := storage_abc\<rparr>,
     Some (Wrapped cycle_error ''detect cycle'' []))"
  by (simp add: compile_def register_cyc connect_cyc verify_cyc providers_configure3(2,3))

section \<open>Cycle detection in compile\<close>

text \<open>
  C4. In a world whose definitions are all unmarked and whose edges stay within the heap
  (the empty heap of a fresh program is one), and with fuel above the number of
  definitions, \<open>compile\<close> returns an error of the cycle check ("detect cycle") exactly
  when registration and wiring succeed and the wired graph has a cycle that can be
  reached from a definition of the storage along the \<open>out\<close> edges. The traversal reports
  a definition found in progress and skips one found done. For the providers A, B, C
  with A depending on B, B on C and C on A, \<open>New\<close> fails with that error; for the
  acyclic chain, with C depending on nothing, it returns the container.
\<close>

theorem compile_detects_cycles:
  assumes "closed_edges (heap w)"
    and "\<forall>a < length (heap w). visited (heap w ! a) = visitMarkUnmarked"
    and "length (heap w) + length (providers c) < fuel"
  shows "((\<exists>w' c' e. compile fuel w c = Return (w', c', Some (Wrapped e ''detect cycle'' []))) \<longleftrightarrow>
      (\<exists>w1 s1 w2 d. register w (storage c) (providers c) = Return (w1, s1, None) \<and>
         connect w1 s1 (all s1) = Return (w2, None) \<and>
         Some d \<in> set (all s1) \<and> reaches_cycle (heap w2) d)) \<and>
    (\<forall>n v d. d < length (heap v) \<and> visited (heap v ! d) = visitMarkTemporary \<longrightarrow>
       visit (Suc n) v d = Return (v, Some (errors_Errorf ''%s'' [ArgKey (key (heap v ! d))]))) \<and>
    (\<forall>n v d. d < length (heap v) \<and> visited (heap v ! d) = visitMarkPermanent \<longrightarrow>
       visit (Suc n) v d = Return (v, None)) \<and>
    New 4 world_abc [Provide provider_A, Provide provider_B, Provide provider_C_A] =
      Return (world_abc\<lparr>heap := heap_cyc_stuck\<rparr>, None,
        Some (Wrapped (Wrapped cycle_error ''detect cycle'' []) ''could not compile container'' [])) \<and>
    New 4 world_abc [Provide provider_A, Provide provider_B, Provide provider_C] =
      Return (world_abc\<lparr>heap := heap_abc_done\<rparr>,
        Some ((configure [Provide provider_A, Provide provider_B, Provide provider_C])
                \<lparr>storage := storage_abc\<rparr>),
        None)"
proof -
  note compile_cycle_stage[OF assms]
  moreover have "visit (Suc n) v d = Return (v, Some (errors_Errorf ''%s'' [ArgKey (key (heap v ! d))]))"
    if "d < length (heap v) \<and> visited (heap v ! d) = visitMarkTemporary" for n v d
    using that by simp
  moreover have "visit (Suc n) v d = Return (v, None)"
    if "d < length (heap v) \<and> visited (heap v ! d) = visitMarkPermanent" for n v d
    using that by simp
  ultimately show ?thesis using New_cyc New_abc by blast
qed

theorem compile_detects_cycles_witness:
  "heap world_abc = [] \<and>
   length (providers (configure [Provide provider_A, Provide provider_B, Provide provider_C_A])) = 3 \<and>
   compile 4 world_abc (configure [Provide provider_A, Provide provider_B, Provide provider_C_A]) =
     Return (world_abc\<lparr>heap := heap_cyc_stuck\<rparr>,
       (configure [Provide provider_A, Provide provider_B, Provide provider_C_A])
         \<lparr>storage := storage_abc\<rparr>,
       Some (Wrapped cycle_error ''detect cycle'' [])) \<and>
   (\<exists>w1 s1 w2 d.
      register world_abc
        (storage (configure [Provide provider_A, Provide provider_B, Provide provider_C_A]))
        (providers (configure [Provide provider_A, Provide provider_B, Provide provider_C_A])) =
        Return (w1, s1, None) \<and>
      connect w1 s1 (all s1) = Return (w2, None) \<and>
      Some d \<in> set (all s1) \<and> reaches_cycle (heap w2) d) \<and>
   compile 4 world_abc (configure [Provide provider_A, Provide provider_B, Provide provider_C]) =
     Return (world_abc\<lparr>heap := heap_abc_done\<rparr>,
       (configure [Provide provider_A, Provide provider_B, Provide provider_C])
         \<lparr>storage := storage_abc\<rparr>,
       None) \<and>
   \<not> (\<exists>w1 s1 w2 d.
      register world_abc
        (storage (configure [Provide provider_A, Provide provider_B, Provide provider_C]))
        (providers (configure [Provide provider_A, Provide provider_B, Provide provider_C])) =
        Return (w1, s1, None) \<and>
      connect w1 s1 (all s1) = Return (w2, None) \<and>
      Some d \<in> set (all s1) \<and> reaches_cycle (heap w2) d)"
proof -
  have h: "heap world_abc = []" by (simp add: world_abc_def)
  have ce: "closed_edges (heap world_abc)" by (simp add: h closed_edges_def)
  have un: "\<forall>a < length (heap world_abc). visited (heap world_abc ! a) = visitMarkUnmarked"
    by (simp add: h)
  have l: "length (providers (configure [Provide p, Provide q, Provide r])) = 3" for p q r
    by (simp add: providers_configure3)
  have f: "length (heap world_abc) + length (providers (configure [Provide p, Provide q, Provide r])) < 4"
    for p q r by (simp add: h l)
  note A = compile_detects_cycles[OF ce un f, THEN conjunct1]
  have 1: "\<exists>w' c' e. compile 4 world_abc
      (configure [Provide provider_A, Provide provider_B, Provide provider_C_A]) =
      Return (w', c', Some (Wrapped e ''detect cycle'' []))"
    using compile_cyc by blast
  have 2: "\<not> (\<exists>w' c' e. compile 4 world_abc
      (configure [Provide provider_A, Provide provider_B, Provide provider_C]) =
      Return (w', c', Some (Wrapped e ''detect cycle'' [])))"
    by (simp add: compile_abc)
  from 1 A[of provider_A provider_B provider_C_A] have 3: "\<exists>w1 s1 w2 d.
      register world_abc
        (storage (configure [Provide provider_A, Provide provider_B, Provide provider_C_A]))
        (providers (configure [Provide provider_A, Provide provider_B, Provide provider_C_A])) =
        Return (w1, s1, None) \<and>
      connect w1 s1 (all s1) = Return (w2, None) \<and>
      Some d \<in> set (all s1) \<and> reaches_cycle (heap w2) d" by blast
  from 2 A[of provider_A provider_B provider_C] have 4: "\<not> (\<exists>w1 s1 w2 d.
      register world_abc
        (storage (configure [Provide provider_A, Provide provider_B, Provide provider_C]))
        (providers (configure [Provide provider_A, Provide provider_B, Provide provider_C])) =
        Return (w1, s1, None) \<and>
      connect w1 s1 (all s1) = Return (w2, None) \<and>
      Some d \<in> set (all s1) \<and> reaches_cycle (heap w2) d)" by blast
  from h l compile_cyc compile_abc 3 4 show ?thesis by blast
qed

section \<open>The wiring of the examples\<close>



lemma verify_cause:
  "verify fuel w ns = Return (w', Some e) \<Longrightarrow> cause_of e = Some CycleDetected"
proof (induction fuel w ns rule: verify.induct)
  case (1 fuel w)
  then show ?case by simp
next
  case (2 fuel w ns)
  then show ?case by simp
next
  case (3 fuel w n ns)
  show ?case
  proof (cases "n < length (heap w)")
    case False
    with 3(3) show ?thesis by simp
  next
    case l: True
    show ?thesis
    proof (cases "visited (heap w ! n) = visitMarkUnmarked")
      case False
      with 3(2)[OF _ False] 3(3) l show ?thesis by simp
    next
      case True
      with 3(3) l consider (here) e0 where "e = Wrapped e0 ''detect cycle'' []"
        | (rest) w1 where "visit fuel w n = Return (w1, None)" "verify fuel w1 ns = Return (w', Some e)"
        by (auto simp: errors_Wrap_def split: exec.splits prod.splits option.splits)
      then show ?thesis
      proof cases
        case here
        then show ?thesis by simp
      next
        case rest
        with 3(1)[OF _ True] l show ?thesis by simp
      qed
    qed
  qed
qed

lemma compile_cause:
  assumes "compile fuel w c = Return (w', c', Some e)"
  shows "cause_of e \<noteq> None"
proof -
  from assms consider
    (reg) w1 s1 where "register w (storage c) (providers c) = Return (w1, s1, Some e)"
    | (con) w1 s1 where "connect w1 s1 (all s1) = Return (w', Some e)"
    | (ver) w2 s1 where "verify fuel w2 (all s1) = Return (w', Some e)"
    | (app) w3 s1 where "apply_modifiers fuel w3 (c\<lparr>storage := s1\<rparr>) (modifiers c) = Return (w', Some e)"
    by (auto simp: compile_def split: exec.splits prod.splits option.splits)
  then show ?thesis
  proof cases
    case reg
    from register_cause[OF this] show ?thesis by auto
  next
    case con
    from connect_cause[OF this] show ?thesis by auto
  next
    case ver
    from verify_cause[OF this] show ?thesis by auto
  next
    case app
    from apply_modifiers_cause[OF this] show ?thesis by auto
  qed
qed

section \<open>Construction is all or nothing\<close>

text \<open>
  What \<open>New\<close> returns, when it returns: the compiled container and no error, or no
  container and the error of \<open>compile\<close> wrapped as "could not compile container".
\<close>

lemma New_result_shape:
  assumes "New fuel w opts = Return (w', r, e)"
  shows "(\<exists>c. r = Some c \<and> e = None \<and> compile fuel w (configure opts) = Return (w', c, None)) \<or>
    (\<exists>c err. r = None \<and> e = Some (Wrapped err ''could not compile container'' []) \<and>
       compile fuel w (configure opts) = Return (w', c, Some err))"
proof -
  from assms obtain c x where c: "compile fuel w (configure opts) = Return (w', c, x)"
    by (auto simp: New_def split: exec.splits prod.splits option.splits)
  with assms show ?thesis by (cases x) (simp_all add: New_def)
qed

lemma register_nil:
  "register world_abc empty_storage [nil_registration] =
     Return (world_abc, empty_storage, Some (errors_New ''could not provide nil''))"
  by (simp add: nil_registration_def)

lemma apply_modifiers_nil:
  "apply_modifiers 4 world_abc container0 [\<lparr>modifier = Invalid\<rparr>] =
     Return (world_abc, Some (errors_New ''nil modifier''))"
  by (simp add: apply'_def)

lemma New_nil:
  "New 4 world_abc [Provide Invalid, Provide provider_A] =
     Return (world_abc, None,
       Some (Wrapped (errors_New ''could not provide nil'') ''could not compile container'' []))"
  by (simp add: New_def compile_def configure_def Provide_def Let_def)

text \<open>
  C8 at its failing input. \<open>New\<close> does not always return one of the two results: with
  the modifier \<open>func() error { return nil }\<close> as its only option, whose signature is
  valid, registration, wiring and the cycle check succeed on the empty storage, the
  modifier is called and returns the nil \<open>error\<close>, and the type assertion in \<open>apply\<close>
  panics. \<open>New\<close> returns neither a container nor an error, whatever the fuel and
  whatever the world holds.
\<close>

theorem New_nil_error_modifier_panics:
  "New fuel (w\<lparr>code := return_nil_error\<rparr>) [Apply (modifier nil_error_modifier)] = Panic"
  by (simp add: New_def compile_def configure_def Apply_def Let_def empty_storage_def all_def
      apply'_def nil_error_modifier_def Call_def return_nil_error_def
      errorInterface_def)

section \<open>Properties of lazy instantiation\<close>





















section \<open>Resolution is memoized\<close>










end
